theory Spec2Isabelle
  imports Main "HOL-Library.Word" "HOL-Library.Multiset"
begin

chapter \<open>The program\<close>

section \<open>Data model\<close>

text \<open>
  Byte slices and Go strings are lists of 8-bit characters. A \<open>time.Time\<close> is the instant it
  denotes, in nanoseconds since the Unix epoch: every place the code looks at a time it first
  calls \<open>UTC()\<close>, or compares instants with \<open>Before\<close>, so the location never matters.
  \<open>uint64\<close> is a 64-bit word, whose \<open>+\<close> wraps as Go's does.
\<close>

type_synonym bytes = string

record Meta =
  Version :: "64 word"
  Time :: int
  PrevCS :: string
  CS :: string
  Signature :: string

record Config =
  Meta :: Meta
  Content :: bytes

text \<open>
  \<open>JournalEntry\<close> of journal.go. Its fields carry the prefix \<open>Entry\<close> where \<open>Meta\<close> has a
  field of the same name. \<open>EntryConfig\<close> is the pointer \<open>Config *Config\<close>: \<open>None\<close> is nil.
\<close>

record JournalEntry =
  ID :: string
  EntryVersion :: "64 word"
  EntryCS :: string
  EntryPrevCS :: string
  EntryTime :: int
  Operation :: string
  EntryConfig :: "Config option"

text \<open>
  Go errors are values built by \<open>errors.New\<close> and \<open>fmt.Errorf\<close>; each message of the code is a
  constructor, with the arguments the message formats. \<open>Wrap msg e\<close> is
  \<open>fmt.Errorf(msg + ": %w", e)\<close>; \<open>ErrTooLong\<close> is \<open>bufio.ErrTooLong\<close>, \<open>EOF\<close> is \<open>io.EOF\<close>, \<open>ErrNotExist\<close> is
  \<open>os.ErrNotExist\<close>, and \<open>PathError op path msg\<close> is the \<open>*fs.PathError\<close> of package \<open>os\<close>.
\<close>

datatype error =
    ErrChecksumMismatch string string
  | JSONError string
  | VersionBreak "64 word" "64 word"
  | ChainBreak string string
  | TimestampRegression int int
  | MultipleHeads
  | NoHead
  | ForkDetected "64 word"
  | IncompleteChain nat nat
  | EntryInvalid nat error
  | EntryChecksumMismatch nat
  | ChainBreakAt nat
  | VersionBreakAt nat "64 word" "64 word"
  | TimestampRegressionAt nat
  | ErrTooLong
  | ErrNotExist
  | PathError string string string
  | InvalidPath
  | SignerError string
  | PreviousConfigNil
  | EOF
  | Wrap string error

section \<open>The Go standard library, as parameters\<close>

text \<open>
  What the code takes from the standard library is a parameter of the model, collected in one
  record: SHA-256, the \<open>RFC3339Nano\<close> layout of a UTC instant, \<open>encoding/json\<close> at the types
  the code uses it at (\<open>json.Marshal\<close> of an entry or a Config fails on a \<open>Content\<close> that is not
  JSON), and \<open>scan_version base\<close> for \<open>fmt.Sscanf(base, "v%d.json", &v)\<close>, \<open>None\<close> on an error. \<open>json\<close> is the tree \<open>json.Unmarshal\<close> builds in an \<open>interface{}\<close> and
  \<open>normalizeValue\<close> rebuilds: nil, bool, \<open>uint64\<close> (for \<open>Meta.Version\<close>), \<open>float64\<close>, string,
  slice and string-keyed map.
\<close>

typedecl float64

datatype json =
    JNull
  | JBool bool
  | JUint "64 word"
  | JFloat float64
  | JString string
  | JArray "json list"
  | JObject "(string \<times> json) list"

record go_env =
  sha256 :: "bytes \<Rightarrow> bytes"
  format_rfc3339nano :: "int \<Rightarrow> string"
  json_unmarshal :: "bytes \<Rightarrow> error + json"
  json_marshal :: "json \<Rightarrow> bytes"
  unmarshal_entry :: "bytes \<Rightarrow> error + JournalEntry"
  marshal_entry :: "JournalEntry \<Rightarrow> error + bytes"
  unmarshal_config :: "bytes \<Rightarrow> error + Config"
  marshal_config :: "Config \<Rightarrow> error + bytes"
  scan_version :: "string \<Rightarrow> 64 word option"

text \<open>\<open>hex.EncodeToString\<close>: two lower-case digits for each byte.\<close>

definition hex_digit :: "nat \<Rightarrow> char" where
  "hex_digit n = ''0123456789abcdef'' ! (n mod 16)"

definition hex_encode :: "bytes \<Rightarrow> string" where
  "hex_encode bs = concat (map (\<lambda>b. [hex_digit (of_char b div 16), hex_digit (of_char b mod 16)]) bs)"

text \<open>\<open>t.UTC().Truncate(time.Microsecond)\<close>: the instant rounded down to a whole microsecond.\<close>

definition truncate_microsecond :: "int \<Rightarrow> int" where
  "truncate_microsecond t = t - t mod 1000"

section \<open>Config: canonical JSON, checksum, validation\<close>

text \<open>
  \<open>normalizeValue\<close> at the values \<open>json.Unmarshal\<close> returns: scalars stay, slices and maps are
  rebuilt element by element (sorting the keys first has no effect on the Go map that is
  built; \<open>json.Marshal\<close> orders the keys). None of these cases returns an error.
\<close>

fun normalizeValue :: "json \<Rightarrow> json" where
  "normalizeValue JNull = JNull"
| "normalizeValue (JBool b) = JBool b"
| "normalizeValue (JUint n) = JUint n"
| "normalizeValue (JFloat f) = JFloat f"
| "normalizeValue (JString s) = JString s"
| "normalizeValue (JArray xs) = JArray (map normalizeValue xs)"
| "normalizeValue (JObject kvs) = JObject (map (\<lambda>(k, v). (k, normalizeValue v)) kvs)"

text \<open>
  \<open>normalizeValue\<close> at the struct \<open>Meta\<close>: every field under its JSON name, \<open>prev_cs\<close> and \<open>sig\<close>
  left out when empty (\<open>omitempty\<close>), \<open>cs\<close> always present, the time as its truncated
  \<open>RFC3339Nano\<close> string.
\<close>

definition normalize_Meta :: "go_env \<Rightarrow> Meta \<Rightarrow> json" where
  "normalize_Meta E m =
     JObject ([(''v'', JUint (Version m)),
               (''t'', JString (format_rfc3339nano E (truncate_microsecond (Time m))))] @
              (if PrevCS m = [] then [] else [(''prev_cs'', JString (PrevCS m))]) @
              [(''cs'', JString (CS m))] @
              (if Signature m = [] then [] else [(''sig'', JString (Signature m))]))"

text \<open>
  \<open>normalizeValue\<close> at the struct \<open>Config\<close>: a non-empty \<open>Content\<close> (a \<open>json.RawMessage\<close>) is
  parsed and normalized, and a parse error is returned; an empty one is a slice of length 0.
\<close>

definition normalize_Config :: "go_env \<Rightarrow> Config \<Rightarrow> error + json" where
  "normalize_Config E c =
     (if length (Content c) > 0 then
        (case json_unmarshal E (Content c) of
           Inl err \<Rightarrow> Inl err
         | Inr parsed \<Rightarrow>
             Inr (JObject [(''_meta'', normalize_Meta E (Meta c)), (''content'', normalizeValue parsed)]))
      else Inr (JObject [(''_meta'', normalize_Meta E (Meta c)), (''content'', JArray [])]))"

definition canonicalJSON :: "go_env \<Rightarrow> Config \<Rightarrow> error + bytes" where
  "canonicalJSON E c =
     (case normalize_Config E c of Inl err \<Rightarrow> Inl err | Inr normalized \<Rightarrow> Inr (json_marshal E normalized))"

definition computeChecksum :: "go_env \<Rightarrow> Config \<Rightarrow> error + string" where
  "computeChecksum E c =
     (let tmp = c\<lparr>Meta := (Meta c)\<lparr>CS := [], Signature := []\<rparr>\<rparr> in
      case canonicalJSON E tmp of
        Inl err \<Rightarrow> Inl err
      | Inr canonical \<Rightarrow>
          Inr (hex_encode (sha256 E (canonical @
                 format_rfc3339nano E (truncate_microsecond (Time (Meta tmp)))))))"

definition Validate :: "go_env \<Rightarrow> Config \<Rightarrow> error + unit" where
  "Validate E c =
     (case computeChecksum E c of
        Inl err \<Rightarrow> Inl err
      | Inr cs \<Rightarrow> if cs \<noteq> CS (Meta c) then Inl (ErrChecksumMismatch (CS (Meta c)) cs) else Inr ())"

text \<open>\<open>NextOf\<close>; the previous config is a pointer, \<open>None\<close> when nil.\<close>

definition NextOf :: "go_env \<Rightarrow> Config \<Rightarrow> Config option \<Rightarrow> error + unit" where
  "NextOf E c prev_ptr =
     (case prev_ptr of
        None \<Rightarrow> Inl PreviousConfigNil
      | Some prev \<Rightarrow>
          if Version (Meta c) \<noteq> Version (Meta prev) + 1
            then Inl (VersionBreak (Version (Meta prev)) (Version (Meta c)))
          else if PrevCS (Meta c) \<noteq> CS (Meta prev)
            then Inl (ChainBreak (PrevCS (Meta c)) (CS (Meta prev)))
          else if Time (Meta c) < Time (Meta prev)
            then Inl (TimestampRegression (Time (Meta c)) (Time (Meta prev)))
          else (case Validate E prev of
                  Inl err \<Rightarrow> Inl (Wrap ''previous config invalid'' err)
                | Inr _ \<Rightarrow>
                    (case Validate E c of
                       Inl err \<Rightarrow> Inl (Wrap ''current config invalid'' err)
                     | Inr _ \<Rightarrow> Inr ())))"

text \<open>
  \<open>UpdateMeta\<close>; \<open>now\<close> is what \<open>time.Now()\<close> returns, the wall clock. The receiver is mutated
  in place; the model returns it, and only the error when the checksum cannot be computed.
\<close>

definition UpdateMeta :: "go_env \<Rightarrow> int \<Rightarrow> Config \<Rightarrow> error + Config" where
  "UpdateMeta E now c =
     (let c' = c\<lparr>Meta := (Meta c)\<lparr>Time := truncate_microsecond now,
                                   Version := Version (Meta c) + 1,
                                   PrevCS := CS (Meta c),
                                   CS := [],
                                   Signature := []\<rparr>\<rparr> in
      case computeChecksum E c' of
        Inl err \<Rightarrow> Inl err
      | Inr cs \<Rightarrow> Inr (c'\<lparr>Meta := (Meta c')\<lparr>CS := cs\<rparr>\<rparr>))"

section \<open>Journal.ReadAll\<close>

text \<open>
  \<open>bufio.Scanner\<close> with its default split function \<open>ScanLines\<close> and its default buffer.
  \<open>scan_lines\<close> cuts the data at each newline; a last line without a newline is a line when
  it is not empty. The scanner's buffer grows to \<open>MaxScanTokenSize\<close> (64 KiB) and no further: a
  line of that many bytes or more before its newline ends the scan with \<open>ErrTooLong\<close>. A line
  handed out has one trailing carriage return dropped.
\<close>

fun scan_lines :: "bytes \<Rightarrow> bytes \<Rightarrow> bytes list" where
  "scan_lines cur [] = (if cur = [] then [] else [cur])"
| "scan_lines cur (c # cs) =
     (if c = CHR 0x0A then cur # scan_lines [] cs else scan_lines (cur @ [c]) cs)"

definition MaxScanTokenSize :: nat where
  "MaxScanTokenSize = 64 * 1024"

definition dropCR :: "bytes \<Rightarrow> bytes" where
  "dropCR line = (if line \<noteq> [] \<and> last line = CHR 0x0D then butlast line else line)"

text \<open>
  The loop of \<open>ReadAll\<close> over the scanner. The result is the pair the function returns: on a
  line that does not parse, nil and the wrapped error; when the scan ends, the entries read
  so far and \<open>scanner.Err()\<close>.
\<close>

fun read_entries ::
  "go_env \<Rightarrow> bytes list \<Rightarrow> JournalEntry list \<Rightarrow> JournalEntry list \<times> error option" where
  "read_entries E [] entries = (entries, None)"
| "read_entries E (raw # rest) entries =
     (if length raw \<ge> MaxScanTokenSize then (entries, Some ErrTooLong)
      else if dropCR raw = [] then read_entries E rest entries
      else (case unmarshal_entry E (dropCR raw) of
              Inl err \<Rightarrow> ([], Some (Wrap ''invalid journal entry'' err))
            | Inr entry \<Rightarrow> read_entries E rest (entries @ [entry])))"

text \<open>
  \<open>strings.HasPrefix\<close>, \<open>strings.HasSuffix\<close> and \<open>strings.Contains\<close>, and \<open>err.Error()\<close> for the
  errors a \<open>Storage\<close> of this repository returns from \<open>Read\<close>.
\<close>

definition HasPrefix :: "string \<Rightarrow> string \<Rightarrow> bool" where
  "HasPrefix s prefix = (take (length prefix) s = prefix)"

definition HasSuffix :: "string \<Rightarrow> string \<Rightarrow> bool" where
  "HasSuffix s suffix = (length suffix \<le> length s \<and> drop (length s - length suffix) s = suffix)"

fun Contains :: "string \<Rightarrow> string \<Rightarrow> bool" where
  "Contains [] substr = (substr = [])"
| "Contains (c # cs) substr = (HasPrefix (c # cs) substr \<or> Contains cs substr)"

fun read_error_message :: "error \<Rightarrow> string" where
  "read_error_message ErrNotExist = ''file does not exist''"
| "read_error_message EOF = ''EOF''"
| "read_error_message InvalidPath = ''invalid path: potential directory traversal''"
| "read_error_message (PathError op path msg) = op @ '' '' @ path @ '': '' @ msg"
| "read_error_message _ = []"

definition ReadAll :: "go_env \<Rightarrow> error + bytes \<Rightarrow> JournalEntry list \<times> error option" where
  "ReadAll E read_result =
     (case read_result of
        Inl err \<Rightarrow>
          if err = EOF \<or> Contains (read_error_message err) ''no such file''
          then ([], None) else ([], Some err)
      | Inr data \<Rightarrow> read_entries E (scan_lines [] data) [])"

section \<open>Journal.Resequence\<close>

text \<open>
  The first loop of \<open>Resequence\<close>: entries with an empty \<open>CS\<close> are skipped; the others are
  stored under their \<open>CS\<close> (a later entry replaces an earlier one) and appended to the slice
  kept under their \<open>PrevCS\<close>. A Go map read of a missing key gives nil: \<open>None\<close> for the map of
  pointers, the empty slice for the map of slices. (\<open>csSet\<close> is written and never read.)
\<close>

fun build_index ::
  "JournalEntry list \<Rightarrow> (string \<rightharpoonup> JournalEntry) \<Rightarrow> (string \<Rightarrow> JournalEntry list)
     \<Rightarrow> (string \<rightharpoonup> JournalEntry) \<times> (string \<Rightarrow> JournalEntry list)" where
  "build_index [] csToEntry prevToEntries = (csToEntry, prevToEntries)"
| "build_index (entry # rest) csToEntry prevToEntries =
     (if EntryCS entry = [] then build_index rest csToEntry prevToEntries
      else build_index rest (csToEntry(EntryCS entry \<mapsto> entry))
             (prevToEntries(EntryPrevCS entry := prevToEntries (EntryPrevCS entry) @ [entry])))"

text \<open>The second loop: the head search, which returns at the second candidate.\<close>

fun find_head ::
  "(string \<rightharpoonup> JournalEntry) \<Rightarrow> JournalEntry list \<Rightarrow> JournalEntry option
     \<Rightarrow> error + JournalEntry option" where
  "find_head csToEntry [] head = Inr head"
| "find_head csToEntry (entry # rest) head =
     (if EntryPrevCS entry = [] \<or> (EntryPrevCS entry \<noteq> [] \<and> csToEntry (EntryPrevCS entry) = None)
      then (if head \<noteq> None then Inl MultipleHeads else find_head csToEntry rest (Some entry))
      else find_head csToEntry rest head)"

text \<open>
  The third loop, \<open>for current != nil\<close>. Nothing bounds it: it runs for ever when the
  successor links form a cycle, so not returning is the value \<open>None\<close>.
\<close>

partial_function (option) follow_chain ::
  "(string \<Rightarrow> JournalEntry list) \<Rightarrow> JournalEntry \<Rightarrow> JournalEntry list
     \<Rightarrow> (error + JournalEntry list) option" where
  "follow_chain prevToEntries current ordered =
     (if length (prevToEntries (EntryCS current)) = 0 then Some (Inr (ordered @ [current]))
      else if length (prevToEntries (EntryCS current)) > 1
        then Some (Inl (ForkDetected (EntryVersion current)))
      else follow_chain prevToEntries (hd (prevToEntries (EntryCS current))) (ordered @ [current]))"

definition Resequence :: "JournalEntry list \<Rightarrow> (error + JournalEntry list) option" where
  "Resequence entries =
     (if length entries = 0 then Some (Inr [])
      else case build_index entries Map.empty (\<lambda>_. []) of
        (csToEntry, prevToEntries) \<Rightarrow>
          (case find_head csToEntry entries None of
             Inl e \<Rightarrow> Some (Inl e)
           | Inr None \<Rightarrow> Some (Inl NoHead)
           | Inr (Some head) \<Rightarrow>
               (case follow_chain prevToEntries head [] of
                  None \<Rightarrow> None
                | Some (Inl e) \<Rightarrow> Some (Inl e)
                | Some (Inr ordered) \<Rightarrow>
                    if length ordered \<noteq> length entries
                    then Some (Inl (IncompleteChain (length ordered) (length entries)))
                    else Some (Inr ordered))))"

section \<open>Storage\<close>

text \<open>
  \<open>path/filepath\<close> on Unix paths. \<open>Clean\<close> drops empty and \<open>.\<close> elements, cancels an inner
  \<open>..\<close> against the element before it, drops a \<open>..\<close> at the root of a rooted path, and
  returns \<open>.\<close> for an empty result. \<open>Join\<close> ignores empty elements and cleans the result;
  with no non-empty element it returns the empty string. \<open>Base\<close> is the last element.
\<close>

fun split_path :: "string \<Rightarrow> string \<Rightarrow> string list" where
  "split_path cur [] = [cur]"
| "split_path cur (c # cs) =
     (if c = CHR ''/'' then cur # split_path [] cs else split_path (cur @ [c]) cs)"

fun join_path :: "string list \<Rightarrow> string" where
  "join_path [] = []"
| "join_path [x] = x"
| "join_path (x # y # rest) = x @ ''/'' @ join_path (y # rest)"

definition clean_step :: "bool \<Rightarrow> string list \<Rightarrow> string \<Rightarrow> string list" where
  "clean_step rooted out elem =
     (if elem = [] \<or> elem = ''.'' then out
      else if elem = ''..'' then
        (if out \<noteq> [] \<and> last out \<noteq> ''..'' then butlast out
         else if rooted then out else out @ [elem])
      else out @ [elem])"

definition Clean :: "string \<Rightarrow> string" where
  "Clean path =
     (let rooted = HasPrefix path ''/'';
          out = foldl (clean_step rooted) [] (split_path [] path)
      in if rooted then ''/'' @ join_path out
         else if out = [] then ''.'' else join_path out)"

definition Join :: "string list \<Rightarrow> string" where
  "Join elems =
     (if filter (\<lambda>e. e \<noteq> []) elems = [] then []
      else Clean (join_path (filter (\<lambda>e. e \<noteq> []) elems)))"

definition Base :: "string \<Rightarrow> string" where
  "Base path =
     (if path = [] then ''.''
      else if filter (\<lambda>e. e \<noteq> []) (split_path [] path) = [] then ''/''
      else last (filter (\<lambda>e. e \<noteq> []) (split_path [] path)))"

text \<open>
  \<open>filepath.Rel\<close> for two clean paths that are both rooted: the elements of the base
  that the target does not share become \<open>..\<close>.
\<close>

fun drop_common :: "string list \<Rightarrow> string list \<Rightarrow> string list \<times> string list" where
  "drop_common (x # xs) (y # ys) = (if x = y then drop_common xs ys else (x # xs, y # ys))"
| "drop_common xs ys = (xs, ys)"

definition Rel :: "string \<Rightarrow> string \<Rightarrow> string" where
  "Rel basepath targpath =
     (case drop_common (filter (\<lambda>e. e \<noteq> []) (split_path [] basepath))
                       (filter (\<lambda>e. e \<noteq> []) (split_path [] targpath)) of
        (b, t) \<Rightarrow> if b = [] \<and> t = [] then ''.''
                  else join_path (map (\<lambda>_. ''..'') b @ t))"

text \<open>
  The files a storage holds, as an association list from path to content (first match
  counts). For \<open>MemoryStorage\<close> it is the map \<open>data\<close>. For \<open>FileStorage\<close> it is the files of the
  whole file system, by absolute clean path, beside the absolute \<open>root\<close>. Directories are
  not stored: a directory is a path with a file below it (or \<open>/\<close>), so an empty directory
  is not modelled, \<open>os.MkdirAll\<close> always succeeds and \<open>os.WriteFile\<close> fails never.
\<close>

type_synonym files = "(string \<times> bytes) list"

datatype storage =
    MemoryStorage files
  | FileStorage string files

definition put_file :: "string \<Rightarrow> bytes \<Rightarrow> files \<Rightarrow> files" where
  "put_file path data fs = (path, data) # filter (\<lambda>(p, d). p \<noteq> path) fs"

definition remove_file :: "string \<Rightarrow> files \<Rightarrow> files" where
  "remove_file path fs = filter (\<lambda>(p, d). p \<noteq> path) fs"

fun Read :: "storage \<Rightarrow> string \<Rightarrow> error + bytes" where
  "Read (MemoryStorage data) path =
     (case map_of data path of None \<Rightarrow> Inl ErrNotExist | Some d \<Rightarrow> Inr d)"
| "Read (FileStorage root disk) path =
     (let fullPath = Join [root, path] in
      if \<not> HasPrefix (Clean fullPath) root then Inl InvalidPath
      else (case map_of disk fullPath of
              None \<Rightarrow> Inl (PathError ''open'' fullPath ''no such file or directory'')
            | Some d \<Rightarrow> Inr d))"

fun Write :: "storage \<Rightarrow> string \<Rightarrow> bytes \<Rightarrow> error + storage" where
  "Write (MemoryStorage data) path d = Inr (MemoryStorage (put_file path d data))"
| "Write (FileStorage root disk) path d =
     (let fullPath = Join [root, path] in Inr (FileStorage root (put_file fullPath d disk)))"

text \<open>
  The order of \<open>filepath.Walk\<close>: depth first, the names of each directory in byte order.
  On whole paths this compares the lists of path elements, element by element.
\<close>

fun string_less :: "string \<Rightarrow> string \<Rightarrow> bool" where
  "string_less [] [] = False"
| "string_less [] (y # ys) = True"
| "string_less (x # xs) [] = False"
| "string_less (x # xs) (y # ys) =
     ((of_char x :: nat) < of_char y \<or> (x = y \<and> string_less xs ys))"

fun elems_less :: "string list \<Rightarrow> string list \<Rightarrow> bool" where
  "elems_less [] [] = False"
| "elems_less [] (y # ys) = True"
| "elems_less (x # xs) [] = False"
| "elems_less (x # xs) (y # ys) = (string_less x y \<or> (x = y \<and> elems_less xs ys))"

definition walk_before :: "string \<Rightarrow> string \<Rightarrow> bool" where
  "walk_before p q = elems_less (split_path [] p) (split_path [] q)"

fun insert_path :: "string \<Rightarrow> string list \<Rightarrow> string list" where
  "insert_path p [] = [p]"
| "insert_path p (q # qs) =
     (if walk_before q p then q # insert_path p qs else p # q # qs)"

definition walk_order :: "string list \<Rightarrow> string list" where
  "walk_order ps = foldr insert_path (remdups ps) []"

text \<open>
  \<open>List\<close>: the in-memory storage returns the keys with the prefix (in the order of a Go map
  range, which is not fixed; here the order of the list). The file storage walks
  \<open>root/prefix\<close>, a file or a directory, and returns each file below it relative to the root,
  in the order of the walk; a path that does not exist gives no file and no error.
\<close>

fun List :: "storage \<Rightarrow> string \<Rightarrow> error + string list" where
  "List (MemoryStorage data) prefix = Inr (filter (\<lambda>p. HasPrefix p prefix) (map fst data))"
| "List (FileStorage root disk) prefix =
     (let searchPath = Join [root, prefix] in
      Inr (map (\<lambda>p. Rel root p)
             (walk_order
                (filter (\<lambda>p. p = searchPath \<or> HasPrefix p (searchPath @ ''/'') \<or> searchPath = ''/'')
                   (map fst disk)))))"

fun Delete :: "storage \<Rightarrow> string \<Rightarrow> error + storage" where
  "Delete (MemoryStorage data) path = Inr (MemoryStorage (remove_file path data))"
| "Delete (FileStorage root disk) path =
     (let fullPath = Join [root, path] in
      case map_of disk fullPath of
        None \<Rightarrow> Inl (PathError ''remove'' fullPath ''no such file or directory'')
      | Some d \<Rightarrow> Inr (FileStorage root (remove_file fullPath disk)))"

text \<open>
  \<open>Exists\<close>: \<open>os.Stat\<close> finds a file and a directory alike. (A path through a file, for which
  \<open>os.Stat\<close> fails with an error that is not \<open>IsNotExist\<close>, is answered \<open>false\<close> here.)
\<close>

definition is_dir :: "files \<Rightarrow> string \<Rightarrow> bool" where
  "is_dir disk path =
     (path = ''/'' \<or> list_ex (\<lambda>p. HasPrefix p (path @ ''/'')) (map fst disk))"

fun Exists :: "storage \<Rightarrow> string \<Rightarrow> error + bool" where
  "Exists (MemoryStorage data) path = Inr (map_of data path \<noteq> None)"
| "Exists (FileStorage root disk) path =
     (let fullPath = Join [root, path] in
      Inr (list_ex (\<lambda>p. p = fullPath) (map fst disk) \<or> is_dir disk fullPath))"

section \<open>ConfigStorage\<close>

text \<open>\<open>%d\<close> of an unsigned number.\<close>

fun decimal :: "nat \<Rightarrow> string" where
  "decimal n = (if n < 10 then [''0123456789'' ! n]
                else decimal (n div 10) @ [''0123456789'' ! (n mod 10)])"

declare decimal.simps [simp del]

definition makeKey :: "string \<Rightarrow> string \<Rightarrow> 64 word \<Rightarrow> string" where
  "makeKey prefix cid version = Join [prefix, cid, ''v'' @ decimal (unat version) @ ''.json'']"

definition Save :: "go_env \<Rightarrow> storage \<Rightarrow> string \<Rightarrow> string \<Rightarrow> Config \<Rightarrow> error + storage" where
  "Save E st prefix cid cfg =
     (case marshal_config E cfg of
        Inl err \<Rightarrow> Inl err
      | Inr data \<Rightarrow> Write st (makeKey prefix cid (Version (Meta cfg))) data)"

definition Load :: "go_env \<Rightarrow> storage \<Rightarrow> string \<Rightarrow> string \<Rightarrow> 64 word \<Rightarrow> error + Config" where
  "Load E st prefix cid version =
     (case Read st (makeKey prefix cid version) of
        Inl err \<Rightarrow> Inl err
      | Inr data \<Rightarrow>
          (case unmarshal_config E data of
             Inl err \<Rightarrow> Inl err
           | Inr cfg \<Rightarrow>
               if CS (Meta cfg) \<noteq> [] then
                 (case Validate E cfg of
                    Inl err \<Rightarrow> Inl (Wrap ''invalid config'' err)
                  | Inr _ \<Rightarrow> Inr cfg)
               else Inr cfg))"

definition ListVersions :: "go_env \<Rightarrow> storage \<Rightarrow> string \<Rightarrow> string \<Rightarrow> error + 64 word list" where
  "ListVersions E st prefix cid =
     (case List st (Join [prefix, cid]) of
        Inl err \<Rightarrow> Inl err
      | Inr paths \<Rightarrow>
          Inr (concat (map (\<lambda>path.
                 if HasPrefix (Base path) ''v'' \<and> HasSuffix (Base path) ''.json''
                 then (case scan_version E (Base path) of Some v \<Rightarrow> [v] | None \<Rightarrow> [])
                 else []) paths)))"

definition LoadLatest :: "go_env \<Rightarrow> storage \<Rightarrow> string \<Rightarrow> string \<Rightarrow> error + Config" where
  "LoadLatest E st prefix cid =
     (case ListVersions E st prefix cid of
        Inl err \<Rightarrow> Inl err
      | Inr versions \<Rightarrow>
          if length versions = 0 then Inl ErrNotExist
          else Load E st prefix cid (foldl (\<lambda>maxVersion v. if v > maxVersion then v else maxVersion)
                                      (hd versions) (tl versions)))"

section \<open>Journal: Append, FindByID, ValidateChain, Compact, Reconstruct\<close>

definition Append :: "go_env \<Rightarrow> storage \<Rightarrow> string \<Rightarrow> JournalEntry \<Rightarrow> error + storage" where
  "Append E st path entry =
     (case marshal_entry E entry of
        Inl err \<Rightarrow> Inl err
      | Inr data \<Rightarrow>
          (let existing = (case Read st path of Inl _ \<Rightarrow> [] | Inr bs \<Rightarrow> bs);
               existing' = (if length existing > 0 \<and> \<not> HasSuffix existing [CHR 0x0A]
                            then existing @ [CHR 0x0A] else existing)
           in Write st path (existing' @ data @ [CHR 0x0A])))"

definition FindByID :: "go_env \<Rightarrow> storage \<Rightarrow> string \<Rightarrow> string \<Rightarrow> error + JournalEntry list" where
  "FindByID E st path cid =
     (case ReadAll E (Read st path) of
        (all, Some err) \<Rightarrow> Inl err
      | (all, None) \<Rightarrow> Inr (filter (\<lambda>entry. ID entry = cid) all))"

text \<open>
  The loop of \<open>ValidateChain\<close>: \<open>i\<close> is the index and \<open>prev\<close> the entry before, \<open>None\<close> at index 0.
\<close>

fun validate_entries :: "go_env \<Rightarrow> nat \<Rightarrow> JournalEntry option \<Rightarrow> JournalEntry list \<Rightarrow> error + unit" where
  "validate_entries E i prev [] = Inr ()"
| "validate_entries E i prev (entry # rest) =
     (case (case EntryConfig entry of
              None \<Rightarrow> Inr ()
            | Some cfg \<Rightarrow>
                (case Validate E cfg of
                   Inl err \<Rightarrow> Inl (EntryInvalid i err)
                 | Inr _ \<Rightarrow> if EntryCS entry \<noteq> CS (Meta cfg)
                            then Inl (EntryChecksumMismatch i) else Inr ())) of
        Inl err \<Rightarrow> Inl err
      | Inr _ \<Rightarrow>
          (case (case prev of
                   None \<Rightarrow> Inr ()
                 | Some p \<Rightarrow>
                     if EntryPrevCS entry \<noteq> EntryCS p then Inl (ChainBreakAt i)
                     else if EntryVersion entry \<noteq> EntryVersion p + 1
                       then Inl (VersionBreakAt i (EntryVersion p) (EntryVersion entry))
                     else if EntryTime entry < EntryTime p then Inl (TimestampRegressionAt i)
                     else Inr ()) of
             Inl err \<Rightarrow> Inl err
           | Inr _ \<Rightarrow> validate_entries E (Suc i) (Some entry) rest))"

definition ValidateChain :: "go_env \<Rightarrow> JournalEntry list \<Rightarrow> error + unit" where
  "ValidateChain E entries = validate_entries E 0 None entries"

text \<open>
  \<open>Compact\<close>. \<open>byID[id]\<close> is the entries of \<open>id\<close> in file order. The loop \<open>for id, idEntries :=
  range byID\<close> visits the keys in an order Go does not fix: the order is the parameter \<open>ids\<close>.
  \<open>Resequence\<close> may not return, and then \<open>Compact\<close> does not.
\<close>

definition compact_one :: "JournalEntry list \<Rightarrow> (error + JournalEntry list) \<Rightarrow> JournalEntry list" where
  "compact_one idEntries result =
     (case result of
        Inl err \<Rightarrow> idEntries
      | Inr ordered \<Rightarrow>
          if length ordered > 10 then drop (length ordered - 10) ordered else ordered)"

fun compact_ids :: "string list \<Rightarrow> JournalEntry list \<Rightarrow> JournalEntry list option" where
  "compact_ids [] entries = Some []"
| "compact_ids (cid # ids) entries =
     (case Resequence (filter (\<lambda>entry. ID entry = cid) entries) of
        None \<Rightarrow> None
      | Some result \<Rightarrow>
          (case compact_ids ids entries of
             None \<Rightarrow> None
           | Some compacted \<Rightarrow>
               Some (compact_one (filter (\<lambda>entry. ID entry = cid) entries) result @ compacted)))"

fun marshal_lines :: "go_env \<Rightarrow> JournalEntry list \<Rightarrow> error + bytes" where
  "marshal_lines E [] = Inr []"
| "marshal_lines E (entry # rest) =
     (case marshal_entry E entry of
        Inl err \<Rightarrow> Inl err
      | Inr data \<Rightarrow>
          (case marshal_lines E rest of
             Inl err \<Rightarrow> Inl err
           | Inr buf \<Rightarrow> Inr (data @ [CHR 0x0A] @ buf)))"

definition Compact :: "go_env \<Rightarrow> string list \<Rightarrow> storage \<Rightarrow> string \<Rightarrow> (error + storage) option" where
  "Compact E ids st path =
     (case Read st path of
        Inl err \<Rightarrow>
          if err = EOF \<or> Contains (read_error_message err) ''no such file''
          then Some (Inr st) else Some (Inl err)
      | Inr data \<Rightarrow>
          (case read_entries E (scan_lines [] data) [] of
             (entries, Some err) \<Rightarrow> Some (Inl err)
           | (entries, None) \<Rightarrow>
               (case compact_ids ids entries of
                  None \<Rightarrow> None
                | Some compacted \<Rightarrow>
                    (case marshal_lines E compacted of
                       Inl err \<Rightarrow> Some (Inl err)
                     | Inr buf \<Rightarrow> Some (Write st path buf)))))"

text \<open>
  \<open>Journal.Reconstruct\<close>: \<open>jst\<close> is the journal's own storage and \<open>st\<close> the storage passed in,
  read under the prefix \<open>configs\<close>.
\<close>

definition Reconstruct ::
  "go_env \<Rightarrow> storage \<Rightarrow> string \<Rightarrow> string \<Rightarrow> storage \<Rightarrow> (error + Config) option" where
  "Reconstruct E jst path cid st =
     (case FindByID E jst path cid of
        Inl err \<Rightarrow> Some (Inl err)
      | Inr entries \<Rightarrow>
          if length entries = 0 then Some (LoadLatest E st ''configs'' cid)
          else (case Resequence entries of
                  None \<Rightarrow> None
                | Some (Inl err) \<Rightarrow> Some (Inl (Wrap ''failed to resequence'' err))
                | Some (Inr ordered) \<Rightarrow>
                    (case ValidateChain E ordered of
                       Inl err \<Rightarrow> Some (Inl (Wrap ''invalid chain'' err))
                     | Inr _ \<Rightarrow>
                         (case EntryConfig (last ordered) of
                            Some cfg \<Rightarrow> Some (Inr cfg)
                          | None \<Rightarrow>
                              Some (Load E st ''configs'' cid (EntryVersion (last ordered)))))))"

section \<open>Signer and Manager\<close>

text \<open>
  \<open>Signer.Sign\<close>. \<open>signMessage\<close>, the Schnorr signature of the external library over the hash
  of the message, is the signer: a function from the message to a signature or an error.
\<close>

definition makeSigningMessage :: "go_env \<Rightarrow> Config \<Rightarrow> string" where
  "makeSigningMessage E cfg =
     ''viracochan:v1:'' @ CS (Meta cfg) @ '':'' @ decimal (unat (Version (Meta cfg))) @ '':'' @
     format_rfc3339nano E (Time (Meta cfg)) @ '':'' @ hex_encode (sha256 E (Content cfg))"

definition Sign :: "go_env \<Rightarrow> (string \<Rightarrow> error + string) \<Rightarrow> Config \<Rightarrow> error + Config" where
  "Sign E signMessage cfg =
     (if CS (Meta cfg) = [] then Inl (SignerError ''config must have checksum before signing'')
      else (case signMessage (makeSigningMessage E cfg) of
              Inl err \<Rightarrow> Inl err
            | Inr sig \<Rightarrow> Inr (cfg\<lparr>Meta := (Meta cfg)\<lparr>Signature := sig\<rparr>\<rparr>)))"

text \<open>
  The \<open>Manager\<close>: its journal and its config store (prefix \<open>configs\<close>) share the one storage;
  \<open>signer\<close> is \<open>None\<close> when nil.
\<close>

record Manager =
  storage :: storage
  journal_path :: string
  signer :: "(string \<Rightarrow> error + string) option"
  cache :: "string \<rightharpoonup> Config"


text \<open>\<open>if m.signer != nil { m.signer.Sign(cfg) }\<close>, as \<open>Create\<close>, \<open>Update\<close> and \<open>Rollback\<close> have it.\<close>

definition sign_config :: "go_env \<Rightarrow> Manager \<Rightarrow> Config \<Rightarrow> error + Config" where
  "sign_config E m cfg = (case signer m of None \<Rightarrow> Inr cfg | Some signMessage \<Rightarrow> Sign E signMessage cfg)"

text \<open>
  The common end of \<open>Create\<close>, \<open>Update\<close> and \<open>Rollback\<close>: save the snapshot, append the journal
  entry that embeds the Config, store the Config in the cache. An operation that fails
  returns its error only.
\<close>

definition journal_entry :: "string \<Rightarrow> Config \<Rightarrow> string \<Rightarrow> JournalEntry" where
  "journal_entry cid cfg operation =
     \<lparr>ID = cid, EntryVersion = Version (Meta cfg), EntryCS = CS (Meta cfg),
      EntryPrevCS = PrevCS (Meta cfg), EntryTime = Time (Meta cfg),
      Operation = operation, EntryConfig = Some cfg\<rparr>"

definition record_version ::
  "go_env \<Rightarrow> Manager \<Rightarrow> string \<Rightarrow> Config \<Rightarrow> string \<Rightarrow> error + Config \<times> Manager" where
  "record_version E m cid cfg operation =
     (case Save E (storage m) ''configs'' cid cfg of
        Inl err \<Rightarrow> Inl err
      | Inr st \<Rightarrow>
          (case Append E st (journal_path m) (journal_entry cid cfg operation) of
             Inl err \<Rightarrow> Inl err
           | Inr st' \<Rightarrow> Inr (cfg, m\<lparr>storage := st', cache := (cache m)(cid \<mapsto> cfg)\<rparr>)))"



definition getLatest :: "go_env \<Rightarrow> Manager \<Rightarrow> string \<Rightarrow> (error + Config \<times> Manager) option" where
  "getLatest E m cid =
     (case cache m cid of
        Some cfg \<Rightarrow> Some (Inr (cfg, m))
      | None \<Rightarrow>
          (case Reconstruct E (storage m) (journal_path m) cid (storage m) of
             None \<Rightarrow> None
           | Some (Inl err) \<Rightarrow> Some (Inl err)
           | Some (Inr cfg) \<Rightarrow> Some (Inr (cfg, m\<lparr>cache := (cache m)(cid \<mapsto> cfg)\<rparr>))))"


definition Rollback ::
  "go_env \<Rightarrow> int \<Rightarrow> Manager \<Rightarrow> string \<Rightarrow> 64 word \<Rightarrow> (error + Config \<times> Manager) option" where
  "Rollback E now m cid version =
     (case Load E (storage m) ''configs'' cid version of
        Inl err \<Rightarrow> Some (Inl err)
      | Inr targetCfg \<Rightarrow>
          (case getLatest E m cid of
             None \<Rightarrow> None
           | Some (Inl err) \<Rightarrow> Some (Inl err)
           | Some (Inr (latestCfg, m')) \<Rightarrow>
               Some (case UpdateMeta E now \<lparr>Meta = Meta latestCfg, Content = Content targetCfg\<rparr> of
                       Inl err \<Rightarrow> Inl err
                     | Inr newCfg \<Rightarrow>
                         (case sign_config E m' newCfg of
                            Inl err \<Rightarrow> Inl err
                          | Inr signedCfg \<Rightarrow>
                              record_version E m' cid signedCfg
                                (''rollback_to_v'' @ decimal (unat version))))))"

text \<open>\<open>Manager.ValidateChain\<close> and \<open>Manager.Reconstruct\<close>.\<close>

definition Manager_ValidateChain :: "go_env \<Rightarrow> Manager \<Rightarrow> string \<Rightarrow> (error + unit) option" where
  "Manager_ValidateChain E m cid =
     (case FindByID E (storage m) (journal_path m) cid of
        Inl err \<Rightarrow> Some (Inl err)
      | Inr entries \<Rightarrow>
          if length entries = 0 then Some (Inr ())
          else (case Resequence entries of
                  None \<Rightarrow> None
                | Some (Inl err) \<Rightarrow> Some (Inl err)
                | Some (Inr ordered) \<Rightarrow> Some (ValidateChain E ordered)))"


section \<open>Vocabulary of the claims about Resequence\<close>

text \<open>
  The candidates of the head search, as a predicate on the index, and as the list the
  specification describes: the entries whose \<open>prev_cs\<close> is empty or is the \<open>cs\<close> of no indexed
  entry. \<open>successors\<close> is what the traversal reads under \<open>prevToEntries[current.CS]\<close>.
\<close>

definition is_head :: "(string \<rightharpoonup> JournalEntry) \<Rightarrow> JournalEntry \<Rightarrow> bool" where
  "is_head c e = (EntryPrevCS e = [] \<or> c (EntryPrevCS e) = None)"

definition chain_heads :: "JournalEntry list \<Rightarrow> JournalEntry list" where
  "chain_heads entries =
     filter (\<lambda>e. EntryPrevCS e = [] \<or>
                 EntryPrevCS e \<notin> set (map EntryCS (filter (\<lambda>x. EntryCS x \<noteq> []) entries))) entries"

definition successors :: "JournalEntry list \<Rightarrow> JournalEntry \<Rightarrow> JournalEntry list" where
  "successors entries a = filter (\<lambda>e. EntryCS e \<noteq> [] \<and> EntryPrevCS e = EntryCS a) entries"

text \<open>
  A single valid chain, first version to last: pairwise distinct non-empty \<open>cs\<close> values,
  exactly one entry with an empty \<open>prev_cs\<close>, and every later entry's \<open>prev_cs\<close> equal to its
  predecessor's \<open>cs\<close>.
\<close>

definition single_valid_chain :: "JournalEntry list \<Rightarrow> bool" where
  "single_valid_chain chain =
     (chain \<noteq> [] \<and> distinct (map EntryCS chain) \<and> (\<forall>e \<in> set chain. EntryCS e \<noteq> []) \<and>
      length (filter (\<lambda>e. EntryPrevCS e = []) chain) = 1 \<and>
      successively (\<lambda>a b. EntryPrevCS b = EntryCS a) chain)"

text \<open>The entries the journal tests build: \<open>{ID: "test", Version: v, CS: cs, PrevCS: prev}\<close>.\<close>

definition test_entry :: "64 word \<Rightarrow> string \<Rightarrow> string \<Rightarrow> JournalEntry" where
  "test_entry v cs prev =
     \<lparr>ID = ''test'', EntryVersion = v, EntryCS = cs, EntryPrevCS = prev,
      EntryTime = 1000000000 * uint v, Operation = [], EntryConfig = None\<rparr>"

text \<open>
  The lines \<open>ReadAll\<close> looks at, and the first one that is not empty and does not parse.
\<close>

definition journal_lines :: "bytes \<Rightarrow> bytes list" where
  "journal_lines data = map dropCR (scan_lines [] data)"

definition corrupt_line :: "go_env \<Rightarrow> bytes \<Rightarrow> bool" where
  "corrupt_line E line = (line \<noteq> [] \<and> isl (unmarshal_entry E line))"

text \<open>
  A stand-in for the standard library in the examples: the hash is the identity, a time is
  printed as nothing, \<open>json.Unmarshal\<close> accepts exactly the text \<open>null\<close> (and refuses the
  number \<open>1e400\<close>, which no \<open>float64\<close> holds, as the library does), \<open>json.Marshal\<close> prints
  the version \<open>n\<close> of a normalized \<open>Config\<close> as \<open>n\<close> letters, and no journal line or snapshot parses.
  No example depends on more than that.
\<close>

fun example_marshal :: "json \<Rightarrow> bytes" where
  "example_marshal (JObject ((k, JObject ((k', JUint v) # kvs)) # rest)) = replicate (unat v) CHR ''v''"
| "example_marshal _ = []"

definition example_env :: go_env where
  "example_env =
     \<lparr>sha256 = (\<lambda>bs. bs),
      format_rfc3339nano = (\<lambda>t. []),
      json_unmarshal = (\<lambda>bs. if bs = ''null'' then Inr JNull
                               else if bs = ''1e400''
                                 then Inl (JSONError ''cannot unmarshal number 1e400 into Go value of type float64'')
                               else Inl (JSONError ''invalid character'')),
      json_marshal = example_marshal,
      unmarshal_entry = (\<lambda>bs. Inl (JSONError ''invalid character'')),
      marshal_entry = (\<lambda>e. Inr ''{}''),
      unmarshal_config = (\<lambda>bs. Inl (JSONError ''invalid character'')),
      marshal_config = (\<lambda>c. Inr ''{}''),
      scan_version = (\<lambda>base. None)\<rparr>"

text \<open>
  A second stand-in, for examples that read a journal: the lines \<open>1\<close> and \<open>2\<close> parse as the
  first two entries of the chain the journal tests build, and these entries are written back
  as those lines.
\<close>

definition journal_example_env :: go_env where
  "journal_example_env =
     example_env\<lparr>
       unmarshal_entry := (\<lambda>bs. if bs = ''1'' then Inr (test_entry 1 ''cs1'' [])
                                else if bs = ''2'' then Inr (test_entry 2 ''cs2'' ''cs1'')
                                else Inl (JSONError ''invalid character'')),
       marshal_entry := (\<lambda>e. if EntryVersion e = 1 then Inr ''1'' else Inr ''2'')\<rparr>"

section \<open>Vocabulary of the claims about the Manager\<close>




chapter \<open>Properties\<close>

section \<open>Resequence of the empty list\<close>

text \<open>
  C10: \<open>Resequence\<close> of the empty list returns the empty result and no error (it does not
  fail with the missing-head error).
\<close>

theorem Resequence_empty: "Resequence [] = Some (Inr [])"
  by (simp add: Resequence_def)

section \<open>Resequence of a shuffled chain\<close>

lemma build_index_prev:
  "snd (build_index es c p) k = p k @ filter (\<lambda>e. EntryCS e \<noteq> [] \<and> EntryPrevCS e = k) es"
  by (induction es arbitrary: c p) auto

lemma build_index_cs_None:
  "(fst (build_index es c p) k = None) = (c k = None \<and> k \<notin> EntryCS ` {e \<in> set es. EntryCS e \<noteq> []})"
  by (induction es arbitrary: c p) auto

lemma is_head_cond:
  "(EntryPrevCS e = [] \<or> (EntryPrevCS e \<noteq> [] \<and> c (EntryPrevCS e) = None)) = is_head c e"
  by (auto simp: is_head_def)

lemma find_head_Some:
  "find_head c es (Some a) = (if filter (is_head c) es = [] then Inr (Some a) else Inl MultipleHeads)"
  by (induction es) (simp_all add: is_head_cond)

lemma find_head_None:
  "find_head c es None =
     (case filter (is_head c) es of [] \<Rightarrow> Inr None | [h] \<Rightarrow> Inr (Some h) | _ \<Rightarrow> Inl MultipleHeads)"
  by (induction es) (simp_all add: is_head_cond find_head_Some split: list.splits)

lemma distinct_singleton_set: "distinct ys \<Longrightarrow> set ys = {x} \<Longrightarrow> ys = [x]"
proof -
  assume d: "distinct ys" and s: "set ys = {x}"
  from d have "length ys = card (set ys)" by (simp add: distinct_card)
  with s have "length ys = 1" by simp
  then obtain y where "ys = [y]" by (cases ys) auto
  with s show ?thesis by simp
qed

lemma chain_link:
  "single_valid_chain chain \<Longrightarrow> Suc i < length chain \<Longrightarrow>
     EntryPrevCS (chain ! Suc i) = EntryCS (chain ! i)"
  by (simp add: single_valid_chain_def successively_conv_nth)

lemma chain_prev_empty_iff:
  assumes c: "single_valid_chain chain" and k: "k < length chain"
  shows "(EntryPrevCS (chain ! k) = []) = (k = 0)"
proof -
  have later: "EntryPrevCS (chain ! Suc i) \<noteq> []" if "Suc i < length chain" for i
    using chain_link[OF c that] c that by (simp add: single_valid_chain_def)
  from c have "filter (\<lambda>e. EntryPrevCS e = []) chain \<noteq> []"
    by (auto simp: single_valid_chain_def)
  then obtain e where "e \<in> set chain" "EntryPrevCS e = []"
    by (auto simp: filter_empty_conv)
  then obtain j where j: "j < length chain" "EntryPrevCS (chain ! j) = []"
    by (auto simp: in_set_conv_nth)
  have "j = 0" using j later by (cases j) auto
  with j have z: "EntryPrevCS (chain ! 0) = []" by simp
  show ?thesis using z later k by (cases k) auto
qed

lemma chain_cs_inj:
  assumes "single_valid_chain chain" and "i < length chain" and "j < length chain"
    and "EntryCS (chain ! i) = EntryCS (chain ! j)"
  shows "i = j"
proof -
  have d: "distinct (map EntryCS chain)" using assms(1) by (simp add: single_valid_chain_def)
  have "map EntryCS chain ! i = map EntryCS chain ! j" using assms by simp
  moreover have "i < length (map EntryCS chain)" "j < length (map EntryCS chain)"
    using assms by simp_all
  ultimately show ?thesis using d nth_eq_iff_index_eq[of "map EntryCS chain" i j] by simp
qed

lemma chain_successors:
  assumes c: "single_valid_chain chain" and i: "i < length chain"
  shows "{e \<in> set chain. EntryCS e \<noteq> [] \<and> EntryPrevCS e = EntryCS (chain ! i)} =
         (if Suc i < length chain then {chain ! Suc i} else {})"
proof -
  have ne: "EntryCS (chain ! k) \<noteq> []" if "k < length chain" for k
    using c that by (simp add: single_valid_chain_def)
  have "(j < length chain \<and> EntryPrevCS (chain ! j) = EntryCS (chain ! i)) = (j = Suc i \<and> Suc i < length chain)" for j
  proof (cases j)
    case 0
    then show ?thesis using chain_prev_empty_iff[OF c, of 0] ne[OF i] i by auto
  next
    case (Suc m)
    show ?thesis
    proof
      assume a: "j < length chain \<and> EntryPrevCS (chain ! j) = EntryCS (chain ! i)"
      then have "EntryCS (chain ! m) = EntryCS (chain ! i)" using chain_link[OF c, of m] Suc by simp
      then have "m = i" using chain_cs_inj[OF c _ i] a Suc by simp
      then show "j = Suc i \<and> Suc i < length chain" using a Suc by simp
    next
      assume "j = Suc i \<and> Suc i < length chain"
      then show "j < length chain \<and> EntryPrevCS (chain ! j) = EntryCS (chain ! i)"
        using chain_link[OF c] by simp
    qed
  qed
  note key = this
  show ?thesis
  proof (cases "Suc i < length chain")
    case True
    have "e \<in> set chain \<and> EntryCS e \<noteq> [] \<and> EntryPrevCS e = EntryCS (chain ! i) \<longleftrightarrow> e = chain ! Suc i" for e
    proof
      assume a: "e \<in> set chain \<and> EntryCS e \<noteq> [] \<and> EntryPrevCS e = EntryCS (chain ! i)"
      then obtain j where "j < length chain" "e = chain ! j" by (auto simp: in_set_conv_nth)
      with a key[of j] show "e = chain ! Suc i" by simp
    next
      assume "e = chain ! Suc i"
      then show "e \<in> set chain \<and> EntryCS e \<noteq> [] \<and> EntryPrevCS e = EntryCS (chain ! i)"
        using True ne[OF True] key[of "Suc i"] by simp
    qed
    then show ?thesis using True by auto
  next
    case False
    have "\<not> (e \<in> set chain \<and> EntryCS e \<noteq> [] \<and> EntryPrevCS e = EntryCS (chain ! i))" for e
    proof
      assume a: "e \<in> set chain \<and> EntryCS e \<noteq> [] \<and> EntryPrevCS e = EntryCS (chain ! i)"
      then obtain j where "j < length chain" "e = chain ! j" by (auto simp: in_set_conv_nth)
      with a key[of j] False show False by simp
    qed
    then show ?thesis using False by auto
  qed
qed

lemma follow_chain_suffix:
  assumes pm: "\<And>i. i < length chain \<Longrightarrow>
      pm (EntryCS (chain ! i)) = (if Suc i < length chain then [chain ! Suc i] else [])"
  shows "i < length chain \<Longrightarrow> follow_chain pm (chain ! i) acc = Some (Inr (acc @ drop i chain))"
proof (induction "length chain - i" arbitrary: i acc)
  case 0
  then show ?case by simp
next
  case (Suc d)
  show ?case
  proof (cases "Suc i < length chain")
    case True
    have "follow_chain pm (chain ! i) acc = follow_chain pm (chain ! Suc i) (acc @ [chain ! i])"
      by (subst follow_chain.simps) (simp add: pm[OF Suc.prems] True)
    also have "\<dots> = Some (Inr ((acc @ [chain ! i]) @ drop (Suc i) chain))"
      using Suc.hyps True by (intro Suc.hyps(1)) auto
    also have "(acc @ [chain ! i]) @ drop (Suc i) chain = acc @ drop i chain"
      using Suc.prems by (simp add: Cons_nth_drop_Suc)
    finally show ?thesis .
  next
    case False
    with Suc.prems have "drop i chain = [chain ! i]"
      by (metis Cons_nth_drop_Suc drop_all not_less)
    then show ?thesis
      by (subst follow_chain.simps) (simp add: pm[OF Suc.prems] False)
  qed
qed

lemma Resequence_of_chain:
  assumes c: "single_valid_chain chain" and p: "mset entries = mset chain"
  shows "Resequence entries = Some (Inr chain)"
proof -
  have ne: "chain \<noteq> []" using c by (simp add: single_valid_chain_def)
  have dc: "distinct chain" using c by (auto simp: single_valid_chain_def distinct_map)
  have se: "set entries = set chain" using p by (rule mset_eq_setD)
  have de: "distinct entries" using p dc by (metis mset_eq_imp_distinct_iff)
  have le: "length entries = length chain" using p by (rule mset_eq_length)
  have ene: "entries \<noteq> []" using le ne by auto
  obtain cm pm where idx: "build_index entries Map.empty (\<lambda>_. []) = (cm, pm)"
    by (cases "build_index entries Map.empty (\<lambda>_. [])")
  have pm: "pm k = filter (\<lambda>e. EntryCS e \<noteq> [] \<and> EntryPrevCS e = k) entries" for k
    using build_index_prev[of entries Map.empty "\<lambda>_. []" k] idx by simp
  have cm: "(cm k = None) = (k \<notin> EntryCS ` set chain)" for k
    using build_index_cs_None[of entries Map.empty "\<lambda>_. []" k] idx se c
    by (auto simp: single_valid_chain_def)
  have zero: "0 < length chain" using ne by simp
  have head_iff: "is_head cm e = (e = chain ! 0)" if "e \<in> set chain" for e
  proof -
    from that obtain k where k: "k < length chain" "e = chain ! k" by (auto simp: in_set_conv_nth)
    have "cm (EntryPrevCS (chain ! k)) \<noteq> None" if "k \<noteq> 0"
    proof -
      from that obtain m where m: "k = Suc m" by (cases k) auto
      have "EntryPrevCS (chain ! k) = EntryCS (chain ! m)" using chain_link[OF c, of m] k m by simp
      moreover have "chain ! m \<in> set chain" using k m by simp
      ultimately show ?thesis by (simp add: cm)
    qed
    moreover have "(chain ! k = chain ! 0) = (k = 0)"
      using dc k zero by (simp add: nth_eq_iff_index_eq)
    ultimately show ?thesis
      using chain_prev_empty_iff[OF c k(1)] k by (auto simp: is_head_def)
  qed
  have "set (filter (is_head cm) entries) = {chain ! 0}"
    using head_iff se zero by auto
  moreover have "distinct (filter (is_head cm) entries)" using de by simp
  ultimately have heads: "filter (is_head cm) entries = [chain ! 0]"
    by (intro distinct_singleton_set)
  have succ: "pm (EntryCS (chain ! i)) = (if Suc i < length chain then [chain ! Suc i] else [])"
    if i: "i < length chain" for i
  proof (cases "Suc i < length chain")
    case True
    have "set (pm (EntryCS (chain ! i))) = {chain ! Suc i}"
      using chain_successors[OF c i] True se by (simp add: pm)
    moreover have "distinct (pm (EntryCS (chain ! i)))" using de by (simp add: pm)
    ultimately have "pm (EntryCS (chain ! i)) = [chain ! Suc i]"
      by (intro distinct_singleton_set)
    then show ?thesis using True by simp
  next
    case False
    have "set (pm (EntryCS (chain ! i))) = {}"
      using chain_successors[OF c i] False se by (simp add: pm)
    then show ?thesis using False by simp
  qed
  have "follow_chain pm (chain ! 0) [] = Some (Inr ([] @ drop 0 chain))"
    using succ zero by (rule follow_chain_suffix)
  then show ?thesis
    using ene idx heads le by (simp add: Resequence_def find_head_None)
qed

text \<open>
  C2: for every non-empty list of entries that forms a single valid chain, \<open>Resequence\<close> of
  any permutation of the list returns, without error, the entries in chain order.
\<close>

theorem Resequence_permutation:
  assumes "single_valid_chain chain" and "mset entries = mset chain"
  shows "Resequence entries = Some (Inr chain)"
  using assms by (rule Resequence_of_chain)

text \<open>The chain of versions 1, 2, 3 given as 3, 1, 2 comes back as 1, 2, 3.\<close>

theorem Resequence_permutation_witness:
  "single_valid_chain [test_entry 1 ''cs1'' [], test_entry 2 ''cs2'' ''cs1'', test_entry 3 ''cs3'' ''cs2''] \<and>
   Resequence [test_entry 3 ''cs3'' ''cs2'', test_entry 1 ''cs1'' [], test_entry 2 ''cs2'' ''cs1'']
     = Some (Inr [test_entry 1 ''cs1'' [], test_entry 2 ''cs2'' ''cs1'', test_entry 3 ''cs3'' ''cs2''])"
proof -
  have c: "single_valid_chain [test_entry 1 ''cs1'' [], test_entry 2 ''cs2'' ''cs1'', test_entry 3 ''cs3'' ''cs2'']"
    by (simp add: single_valid_chain_def test_entry_def)
  have p: "mset [test_entry 3 ''cs3'' ''cs2'', test_entry 1 ''cs1'' [], test_entry 2 ''cs2'' ''cs1'']
      = mset [test_entry 1 ''cs1'' [], test_entry 2 ''cs2'' ''cs1'', test_entry 3 ''cs3'' ''cs2'']"
    by (simp add: add_mset_commute)
  show ?thesis using c Resequence_permutation[OF c p] by simp
qed

section \<open>Forks\<close>

lemma follow_chain_fork:
  "p \<noteq> [] \<Longrightarrow> successively (\<lambda>a b. pm (EntryCS a) = [b]) p \<Longrightarrow>
   length (pm (EntryCS (last p))) > 1 \<Longrightarrow>
   follow_chain pm (hd p) acc = Some (Inl (ForkDetected (EntryVersion (last p))))"
proof (induction p arbitrary: acc)
  case Nil
  then show ?case by simp
next
  case (Cons a p)
  show ?case
  proof (cases p)
    case Nil
    with Cons.prems show ?thesis by (subst follow_chain.simps) auto
  next
    case (Cons b q)
    with Cons.prems have ab: "pm (EntryCS a) = [b]" and rest: "successively (\<lambda>a b. pm (EntryCS a) = [b]) p"
      by simp_all
    have "follow_chain pm (hd p) (acc @ [a]) = Some (Inl (ForkDetected (EntryVersion (last p))))"
      using Cons.prems Cons rest by (intro Cons.IH) simp_all
    then show ?thesis using ab Cons by (subst follow_chain.simps) simp
  qed
qed

lemma follow_chain_path:
  assumes "follow_chain pm cur acc = Some (Inr out)"
  shows "\<exists>path. out = acc @ path \<and> path \<noteq> [] \<and> hd path = cur \<and>
            successively (\<lambda>a b. pm (EntryCS a) = [b]) path \<and> pm (EntryCS (last path)) = []"
proof -
  let ?Q = "\<lambda>(pm :: string \<Rightarrow> JournalEntry list) (cur :: JournalEntry) (acc :: JournalEntry list)
      (y :: error + JournalEntry list). \<forall>out. y = Inr out \<longrightarrow> (\<exists>path. out = acc @ path \<and> path \<noteq> [] \<and>
      hd path = cur \<and> successively (\<lambda>a b. pm (EntryCS a) = [b]) path \<and>
      pm (EntryCS (last path)) = [])"
  have "?Q pm cur acc (Inr out)"
  proof (rule follow_chain.raw_induct[where P = ?Q, OF _ assms])
    fix follow :: "(string \<Rightarrow> JournalEntry list) \<Rightarrow> JournalEntry \<Rightarrow> JournalEntry list
        \<Rightarrow> (error + JournalEntry list) option"
    fix pm cur acc y
    assume IH: "\<And>pm cur acc y. follow pm cur acc = Some y \<Longrightarrow> ?Q pm cur acc y"
    assume body: "(if length (pm (EntryCS cur)) = 0 then Some (Inr (acc @ [cur]))
         else if length (pm (EntryCS cur)) > 1 then Some (Inl (ForkDetected (EntryVersion cur)))
         else follow pm (hd (pm (EntryCS cur))) (acc @ [cur])) = Some y"
    show "?Q pm cur acc y"
    proof (cases "length (pm (EntryCS cur)) = 0")
      case True
      with body have "y = Inr (acc @ [cur])" by simp
      then show ?thesis using True by auto
    next
      case False
      show ?thesis
      proof (cases "length (pm (EntryCS cur)) > 1")
        case True
        with False body have "y = Inl (ForkDetected (EntryVersion cur))" by simp
        then show ?thesis by simp
      next
        case one: False
        with False obtain n where n: "pm (EntryCS cur) = [n]"
          by (cases "pm (EntryCS cur)") auto
        with body have rec: "follow pm n (acc @ [cur]) = Some y" by simp
        show ?thesis
        proof (intro allI impI)
          fix out assume "y = Inr out"
          with IH[OF rec] obtain path where path: "out = (acc @ [cur]) @ path" "path \<noteq> []"
            "hd path = n" "successively (\<lambda>a b. pm (EntryCS a) = [b]) path"
            "pm (EntryCS (last path)) = []" by auto
          then have "successively (\<lambda>a b. pm (EntryCS a) = [b]) (cur # path)"
            using n by (cases path) simp_all
          with path show "\<exists>path. out = acc @ path \<and> path \<noteq> [] \<and> hd path = cur \<and>
              successively (\<lambda>a b. pm (EntryCS a) = [b]) path \<and> pm (EntryCS (last path)) = []"
            by (intro exI[of _ "cur # path"]) simp
        qed
      qed
    qed
  qed
  then show ?thesis by simp
qed


lemma path_distinct_cs:
  "successively (\<lambda>a b. pm (EntryCS a) = [b]) path \<Longrightarrow> path \<noteq> [] \<Longrightarrow>
   pm (EntryCS (last path)) = [] \<Longrightarrow> distinct (map EntryCS path)"
proof (induction path)
  case Nil
  then show ?case by simp
next
  case (Cons a rest)
  show ?case
  proof (cases rest)
    case Nil
    then show ?thesis by simp
  next
    case (Cons b q)
    with Cons.prems have ab: "pm (EntryCS a) = [b]"
      and sr: "successively (\<lambda>a b. pm (EntryCS a) = [b]) rest"
      and lr: "pm (EntryCS (last rest)) = []" by simp_all
    have dr: "distinct (map EntryCS rest)" using Cons.IH sr lr Cons by simp
    have "EntryCS a \<notin> EntryCS ` set rest"
    proof
      assume "EntryCS a \<in> EntryCS ` set rest"
      then obtain k where k: "k < length rest" "EntryCS (rest ! k) = EntryCS a"
        by (auto simp: in_set_conv_nth)
      show False
      proof (cases "Suc k < length rest")
        case True
        have "pm (EntryCS (rest ! k)) = [rest ! Suc k]"
          using successively_nth[OF sr True] .
        with ab k have "rest ! Suc k = rest ! 0" using Cons by simp
        moreover have "distinct rest" using dr by (simp add: distinct_map)
        moreover have "0 < length rest" using Cons by simp
        ultimately have "Suc k = 0" using True nth_eq_iff_index_eq[of rest "Suc k" 0] by simp
        then show False by simp
      next
        case False
        with k have "k = length rest - 1" by arith
        then have "rest ! k = last rest" using Cons by (simp add: last_conv_nth)
        with lr ab k show False by simp
      qed
    qed
    with dr show ?thesis by simp
  qed
qed

lemma path_in_entries:
  "successively (\<lambda>a b. pm (EntryCS a) = [b]) path \<Longrightarrow> path \<noteq> [] \<Longrightarrow> hd path \<in> S \<Longrightarrow>
   (\<And>k. set (pm k) \<subseteq> S) \<Longrightarrow> set path \<subseteq> S"
proof (induction path)
  case Nil
  then show ?case by simp
next
  case (Cons a rest)
  show ?case
  proof (cases rest)
    case Nil
    with Cons.prems show ?thesis by simp
  next
    case (Cons b q)
    with Cons.prems have ab: "pm (EntryCS a) = [b]"
      and sr: "successively (\<lambda>a b. pm (EntryCS a) = [b]) rest" by simp_all
    have "b \<in> S" using Cons.prems(4)[of "EntryCS a"] ab by simp
    then have "set rest \<subseteq> S" using Cons.IH sr Cons Cons.prems(4) by simp
    with Cons.prems show ?thesis by simp
  qed
qed

lemma path_links:
  assumes s: "successively (\<lambda>a b. pm (EntryCS a) = [b]) path" and k: "Suc k < length path"
    and pm: "\<And>k. pm k = filter (\<lambda>e. EntryCS e \<noteq> [] \<and> EntryPrevCS e = k) entries"
  shows "EntryPrevCS (path ! Suc k) = EntryCS (path ! k) \<and> EntryCS (path ! Suc k) \<noteq> []"
proof -
  have "pm (EntryCS (path ! k)) = [path ! Suc k]" using successively_nth[OF s k] .
  then have "path ! Suc k \<in> set (filter (\<lambda>e. EntryCS e \<noteq> [] \<and> EntryPrevCS e = EntryCS (path ! k)) entries)"
    by (simp add: pm)
  then show ?thesis by simp
qed

lemma Resequence_shared_prev_never_succeeds:
  assumes i: "i < length entries" and j: "j < length entries" and ij: "i \<noteq> j"
    and same: "EntryPrevCS (entries ! i) = EntryPrevCS (entries ! j)"
  shows "Resequence entries \<noteq> Some (Inr r)"
proof
  assume ok: "Resequence entries = Some (Inr r)"
  have ene: "entries \<noteq> []" using i by auto
  obtain cm pm where idx: "build_index entries Map.empty (\<lambda>_. []) = (cm, pm)"
    by (cases "build_index entries Map.empty (\<lambda>_. [])")
  have pm: "pm k = filter (\<lambda>e. EntryCS e \<noteq> [] \<and> EntryPrevCS e = k) entries" for k
    using build_index_prev[of entries Map.empty "\<lambda>_. []" k] idx by simp
  have cm: "(cm k = None) = (k \<notin> EntryCS ` {e \<in> set entries. EntryCS e \<noteq> []})" for k
    using build_index_cs_None[of entries Map.empty "\<lambda>_. []" k] idx by simp
  from ok ene idx obtain h where fh: "find_head cm entries None = Inr (Some h)"
    and fc: "follow_chain pm h [] = Some (Inr r)" and len: "length r = length entries"
    by (auto simp: Resequence_def split: sum.splits option.splits if_splits)
  from fh have heads: "filter (is_head cm) entries = [h]"
    by (auto simp: find_head_None split: list.splits)
  from follow_chain_path[OF fc] have path: "r \<noteq> []" "hd r = h"
      "successively (\<lambda>a b. pm (EntryCS a) = [b]) r" "pm (EntryCS (last r)) = []"
    by simp_all
  have dcs: "distinct (map EntryCS r)" using path_distinct_cs[OF path(3) path(1) path(4)] .
  then have dr: "distinct r" by (simp add: distinct_map)
  have "h \<in> set (filter (is_head cm) entries)" by (simp add: heads)
  then have hin: "h \<in> set entries" and hh: "is_head cm h" by simp_all
  have sub: "set r \<subseteq> set entries"
    using path(3) path(1) by (rule path_in_entries) (auto simp: path(2) hin pm)
  have "card (set r) = length entries" using dr len by (simp add: distinct_card)
  moreover have "card (set r) \<le> card (set entries)" using sub by (simp add: card_mono)
  moreover have "card (set entries) \<le> length entries" by (rule card_length)
  ultimately have ce: "card (set entries) = length entries" and cr: "card (set r) = card (set entries)"
    by simp_all
  have de: "distinct entries" using ce by (rule card_distinct)
  have sr: "set r = set entries" using sub cr by (simp add: card_subset_eq)
  have neq: "entries ! i \<noteq> entries ! j" using de i j ij by (simp add: nth_eq_iff_index_eq)
  obtain a where a: "a < length r" "r ! a = entries ! i"
    using sr i by (metis in_set_conv_nth)
  obtain b where b: "b < length r" "r ! b = entries ! j"
    using sr j by (metis in_set_conv_nth)
  have ab: "a \<noteq> b" using a b neq by auto
  have r0: "r ! 0 = h" using path by (simp add: hd_conv_nth)
  have both_later: False if "x = Suc x'" "y = Suc y'" "x < length r" "y < length r" "x \<noteq> y"
    "EntryPrevCS (r ! x) = EntryPrevCS (r ! y)" for x y x' y'
  proof -
    have "EntryCS (r ! x') = EntryCS (r ! y')"
      using path_links[OF path(3) _ pm, of x'] path_links[OF path(3) _ pm, of y'] that by simp
    then have "map EntryCS r ! x' = map EntryCS r ! y'" using that by simp
    then have "x' = y'" using dcs that nth_eq_iff_index_eq[of "map EntryCS r" x' y'] by simp
    with that show False by simp
  qed
  have head_later: False if "y = Suc y'" "y < length r" "EntryPrevCS (r ! 0) = EntryPrevCS (r ! y)" for y y'
  proof -
    have l: "EntryPrevCS (r ! y) = EntryCS (r ! y')" "EntryCS (r ! y) \<noteq> []"
      using path_links[OF path(3) _ pm, of y'] that by simp_all
    have "r ! y' \<in> set r" "r ! y \<in> set r" using that by simp_all
    then have yin: "r ! y' \<in> set entries" "r ! y \<in> set entries" using sr by simp_all
    have "EntryPrevCS (r ! y) = []"
    proof (rule ccontr)
      assume n: "EntryPrevCS (r ! y) \<noteq> []"
      with hh r0 that have "cm (EntryPrevCS (r ! y)) = None" by (simp add: is_head_def)
      then have "EntryCS (r ! y') \<notin> EntryCS ` {e \<in> set entries. EntryCS e \<noteq> []}" by (simp add: cm l)
      with yin n l show False by auto
    qed
    then have "is_head cm (r ! y)" by (simp add: is_head_def)
    with yin have "r ! y \<in> set (filter (is_head cm) entries)" by simp
    with heads have "r ! y = r ! 0" by (simp add: r0)
    moreover have "0 < length r" using path(1) by simp
    ultimately have "y = 0" using dr that nth_eq_iff_index_eq[of r y 0] by simp
    with that show False by simp
  qed
  have same_r: "EntryPrevCS (r ! a) = EntryPrevCS (r ! b)" using a b same by simp
  show False
  proof (cases a)
    case 0
    then obtain b' where "b = Suc b'" using ab by (cases b) auto
    with head_later[of b b'] b same_r 0 show False by simp
  next
    case (Suc a')
    show False
    proof (cases b)
      case 0
      with head_later[of a a'] a same_r Suc show False by simp
    next
      case (Suc b')
      with both_later[of a a' b b'] a b ab same_r \<open>a = Suc a'\<close> show False by simp
    qed
  qed
qed

lemma filter_two_positions:
  assumes "i < length xs" and "j < length xs" and "i \<noteq> j" and "P (xs ! i)" and "P (xs ! j)"
  shows "1 < length (filter P xs)"
proof -
  have "{i, j} \<subseteq> {k. k < length xs \<and> P (xs ! k)}" using assms by simp
  moreover have "finite {k. k < length xs \<and> P (xs ! k)}" by simp
  ultimately have "card {i, j} \<le> card {k. k < length xs \<and> P (xs ! k)}" by (rule card_mono[rotated])
  moreover have "card {i, j} = 2" using assms(3) by simp
  ultimately show ?thesis by (simp add: length_filter_conv_card)
qed

lemma chain_heads_index:
  assumes "build_index entries Map.empty (\<lambda>_. []) = (cm, pm)"
  shows "filter (is_head cm) entries = chain_heads entries"
proof -
  have cm: "(cm k = None) = (k \<notin> set (map EntryCS (filter (\<lambda>x. EntryCS x \<noteq> []) entries)))" for k
    using build_index_cs_None[of entries Map.empty "\<lambda>_. []" k] assms by simp
  have "is_head cm e =
      (EntryPrevCS e = [] \<or>
       EntryPrevCS e \<notin> set (map EntryCS (filter (\<lambda>x. EntryCS x \<noteq> []) entries)))" for e
    unfolding is_head_def by (simp only: cm)
  then show ?thesis unfolding chain_heads_def by (intro filter_cong refl)
qed

lemma find_head_many:
  "1 < length (filter (is_head c) es) \<Longrightarrow> find_head c es None = Inl MultipleHeads"
  by (cases "filter (is_head c) es" rule: list.exhaust[case_names Nil Cons])
     (auto simp: find_head_None split: list.splits)

text \<open>
  C4, as the code has it: an input with two distinct entries (two positions of the slice) that
  share a \<open>prev_cs\<close> is never resequenced successfully. When the shared \<open>prev_cs\<close> is empty or is
  the \<open>cs\<close> of no indexed entry, both are heads and the failure is \<open>MultipleHeads\<close>. The failure
  is \<open>ForkDetected\<close>, with the version of the entry at which the fork appears, when both
  entries are indexed (non-empty \<open>cs\<close>), the input has exactly one head, and the traversal
  from the head, along unique successors, reaches an entry whose \<open>cs\<close> is the shared \<open>prev_cs\<close>.
\<close>

theorem Resequence_fork:
  assumes i: "i < length entries" and j: "j < length entries" and ij: "i \<noteq> j"
    and same: "EntryPrevCS (entries ! i) = EntryPrevCS (entries ! j)"
  shows "(\<forall>r. Resequence entries \<noteq> Some (Inr r)) \<and>
         (EntryPrevCS (entries ! i) = [] \<or>
          EntryPrevCS (entries ! i) \<notin> set (map EntryCS (filter (\<lambda>x. EntryCS x \<noteq> []) entries))
            \<longrightarrow> Resequence entries = Some (Inl MultipleHeads)) \<and>
         (\<forall>p. EntryCS (entries ! i) \<noteq> [] \<and> EntryCS (entries ! j) \<noteq> [] \<and>
              p \<noteq> [] \<and> chain_heads entries = [hd p] \<and>
              successively (\<lambda>a b. successors entries a = [b]) p \<and>
              EntryCS (last p) = EntryPrevCS (entries ! i)
            \<longrightarrow> Resequence entries = Some (Inl (ForkDetected (EntryVersion (last p)))))"
proof (intro conjI allI impI)
  fix r show "Resequence entries \<noteq> Some (Inr r)"
    using i j ij same by (rule Resequence_shared_prev_never_succeeds)
next
  assume a: "EntryPrevCS (entries ! i) = [] \<or>
          EntryPrevCS (entries ! i) \<notin> set (map EntryCS (filter (\<lambda>x. EntryCS x \<noteq> []) entries))"
  have ene: "entries \<noteq> []" using i by auto
  obtain cm pm where idx: "build_index entries Map.empty (\<lambda>_. []) = (cm, pm)"
    by (cases "build_index entries Map.empty (\<lambda>_. [])")
  have cm: "(cm k = None) = (k \<notin> set (map EntryCS (filter (\<lambda>x. EntryCS x \<noteq> []) entries)))" for k
    using build_index_cs_None[of entries Map.empty "\<lambda>_. []" k] idx by simp
  have hi: "is_head cm (entries ! i)" unfolding is_head_def cm using a by blast
  have hj: "is_head cm (entries ! j)" unfolding is_head_def cm using a same by metis
  have "1 < length (filter (is_head cm) entries)"
    using i j ij hi hj by (rule filter_two_positions)
  then have "find_head cm entries None = Inl MultipleHeads" by (rule find_head_many)
  then show "Resequence entries = Some (Inl MultipleHeads)"
    using ene idx by (simp add: Resequence_def)
next
  fix p
  assume a: "EntryCS (entries ! i) \<noteq> [] \<and> EntryCS (entries ! j) \<noteq> [] \<and>
              p \<noteq> [] \<and> chain_heads entries = [hd p] \<and>
              successively (\<lambda>a b. successors entries a = [b]) p \<and>
              EntryCS (last p) = EntryPrevCS (entries ! i)"
  have ene: "entries \<noteq> []" using i by auto
  obtain cm pm where idx: "build_index entries Map.empty (\<lambda>_. []) = (cm, pm)"
    by (cases "build_index entries Map.empty (\<lambda>_. [])")
  have pm: "pm (EntryCS x) = successors entries x" for x
    using build_index_prev[of entries Map.empty "\<lambda>_. []" "EntryCS x"] idx
    by (simp add: successors_def)
  have heads: "filter (is_head cm) entries = [hd p]"
    using chain_heads_index[OF idx] a by simp
  have sp: "successively (\<lambda>a b. pm (EntryCS a) = [b]) p" using a by (simp add: pm)
  let ?Q = "\<lambda>e. EntryCS e \<noteq> [] \<and> EntryPrevCS e = EntryCS (last p)"
  have two: "1 < length (filter ?Q entries)"
  proof (rule filter_two_positions[OF i j ij])
    show "?Q (entries ! i)" using a by simp
    show "?Q (entries ! j)" using a same by simp
  qed
  then have "1 < length (pm (EntryCS (last p)))" by (simp add: pm successors_def)
  with a sp have "follow_chain pm (hd p) [] = Some (Inl (ForkDetected (EntryVersion (last p))))"
    by (intro follow_chain_fork) auto
  then show "Resequence entries = Some (Inl (ForkDetected (EntryVersion (last p))))"
    using ene idx heads by (simp add: Resequence_def find_head_None)
qed

text \<open>
  The fork of the journal tests, two version-2 entries after the same version 1; and the two
  version-2 entries alone, whose \<open>prev_cs\<close> is then the \<open>cs\<close> of no entry.
\<close>

theorem Resequence_fork_witness:
  "Resequence [test_entry 1 ''cs1'' [], test_entry 2 ''cs2a'' ''cs1'', test_entry 2 ''cs2b'' ''cs1'']
     = Some (Inl (ForkDetected 1)) \<and>
   Resequence [test_entry 2 ''cs2a'' ''cs1'', test_entry 2 ''cs2b'' ''cs1''] = Some (Inl MultipleHeads)"
proof -
  let ?ds = "[test_entry 2 ''cs2a'' ''cs1'', test_entry 2 ''cs2b'' ''cs1'']"
  have d: "(0::nat) < length ?ds" "(1::nat) < length ?ds" "(0::nat) \<noteq> 1"
    "EntryPrevCS (?ds ! 0) = EntryPrevCS (?ds ! 1)"
    by (simp_all add: test_entry_def)
  have dangling: "EntryPrevCS (?ds ! 0) \<notin> set (map EntryCS (filter (\<lambda>x. EntryCS x \<noteq> []) ?ds))"
    by (simp add: test_entry_def)
  from Resequence_fork[OF d, THEN conjunct2, THEN conjunct1] dangling
  have many: "Resequence ?ds = Some (Inl MultipleHeads)" by blast
  let ?es = "[test_entry 1 ''cs1'' [], test_entry 2 ''cs2a'' ''cs1'', test_entry 2 ''cs2b'' ''cs1'']"
  have h: "(1::nat) < length ?es" "(2::nat) < length ?es" "(1::nat) \<noteq> 2"
    "EntryPrevCS (?es ! 1) = EntryPrevCS (?es ! 2)"
    by (simp_all add: test_entry_def)
  have heads: "chain_heads ?es = [test_entry 1 ''cs1'' []]"
    by (simp add: chain_heads_def test_entry_def)
  have succs: "successively (\<lambda>a b. successors ?es a = [b]) [test_entry 1 ''cs1'' []]"
    by simp
  have rest: "EntryCS (?es ! 1) \<noteq> []" "EntryCS (?es ! 2) \<noteq> []"
    "EntryCS (last [test_entry 1 ''cs1'' []]) = EntryPrevCS (?es ! 1)"
    "EntryVersion (last [test_entry 1 ''cs1'' []]) = 1"
    by (simp_all add: test_entry_def)
  from Resequence_fork[OF h, THEN conjunct2, THEN conjunct2, THEN spec, of "[test_entry 1 ''cs1'' []]"]
    heads succs rest
  have "Resequence ?es = Some (Inl (ForkDetected 1))" by simp
  with many show ?thesis by simp
qed

text \<open>
  Two distinct entries that share the empty \<open>prev_cs\<close> are two heads: the head search returns
  before any traversal, and the error is not \<open>ForkDetected\<close>.
\<close>

theorem Resequence_two_heads_counterexample:
  "EntryPrevCS ([test_entry 1 ''a'' [], test_entry 1 ''b'' []] ! 0) =
     EntryPrevCS ([test_entry 1 ''a'' [], test_entry 1 ''b'' []] ! 1) \<and>
   test_entry 1 ''a'' [] \<noteq> test_entry 1 ''b'' [] \<and>
   Resequence [test_entry 1 ''a'' [], test_entry 1 ''b'' []] = Some (Inl MultipleHeads)"
  by (simp add: test_entry_def Resequence_def)

section \<open>The checksum rule\<close>

lemma normalizeValue_id: "normalizeValue j = j"
proof (induction j)
  case (JArray xs)
  then show ?case by (simp add: map_idI)
next
  case (JObject kvs)
  have "map (\<lambda>(k, v). (k, normalizeValue v)) kvs = kvs"
  proof (rule map_idI)
    fix x assume x: "x \<in> set kvs"
    obtain k v where kv: "x = (k, v)" by (cases x)
    have "normalizeValue v = v" using JObject[OF x, of v] kv by simp
    then show "(case x of (k, v) \<Rightarrow> (k, normalizeValue v)) = x" using kv by simp
  qed
  then show ?case by simp
qed simp_all

lemma canonicalJSON_parsed:
  assumes "json_unmarshal E (Content c) = Inr parsed"
  shows "canonicalJSON E c =
     Inr (json_marshal E
       (JObject [(''_meta'', normalize_Meta E (Meta c)),
                 (''content'', if Content c = [] then JArray [] else parsed)]))"
  using assms by (simp add: canonicalJSON_def normalize_Config_def normalizeValue_id)

lemma computeChecksum_parsed:
  assumes "json_unmarshal E (Content c) = Inr parsed"
  shows "computeChecksum E c =
     Inr (hex_encode (sha256 E
       (json_marshal E
          (JObject [(''_meta'', normalize_Meta E ((Meta c)\<lparr>CS := [], Signature := []\<rparr>)),
                    (''content'', if Content c = [] then JArray [] else parsed)]) @
        format_rfc3339nano E (truncate_microsecond (Time (Meta c))))))"
proof -
  let ?tmp = "c\<lparr>Meta := (Meta c)\<lparr>CS := [], Signature := []\<rparr>\<rparr>"
  have "json_unmarshal E (Content ?tmp) = Inr parsed" using assms by simp
  from canonicalJSON_parsed[OF this] show ?thesis
    by (simp add: computeChecksum_def Let_def)
qed

text \<open>
  C1, as the code has it: for every Config whose content \<open>json.Unmarshal\<close> accepts, the
  canonical JSON of the Config with \<open>CS\<close> and \<open>Signature\<close> cleared is \<open>json.Marshal\<close> of the
  object with the members \<open>_meta\<close> (the version, the \<open>RFC3339Nano\<close> string of the time in UTC
  truncated to microseconds, \<open>prev_cs\<close> unless empty, and the emptied \<open>cs\<close>; no \<open>sig\<close>) and
  \<open>content\<close> (the parsed content, unchanged); the checksum is the hex-encoded SHA-256 of
  these bytes followed by the same time string; and \<open>Validate\<close> succeeds exactly when
  \<open>Meta.CS\<close> is this value.
\<close>

theorem checksum_rule:
  fixes E :: go_env and c :: Config and parsed :: json
  defines "ts \<equiv> format_rfc3339nano E (truncate_microsecond (Time (Meta c)))"
  defines "canonical \<equiv>
     json_marshal E
       (JObject
          [(''_meta'',
            JObject ([(''v'', JUint (Version (Meta c))), (''t'', JString ts)] @
                     (if PrevCS (Meta c) = [] then [] else [(''prev_cs'', JString (PrevCS (Meta c)))]) @
                     [(''cs'', JString [])])),
           (''content'', if Content c = [] then JArray [] else parsed)])"
  assumes "json_unmarshal E (Content c) = Inr parsed"
  shows "canonicalJSON E (c\<lparr>Meta := (Meta c)\<lparr>CS := [], Signature := []\<rparr>\<rparr>) = Inr canonical \<and>
         computeChecksum E c = Inr (hex_encode (sha256 E (canonical @ ts))) \<and>
         (Validate E c = Inr () \<longleftrightarrow> CS (Meta c) = hex_encode (sha256 E (canonical @ ts)))"
proof -
  let ?tmp = "c\<lparr>Meta := (Meta c)\<lparr>CS := [], Signature := []\<rparr>\<rparr>"
  have m: "normalize_Meta E ((Meta c)\<lparr>CS := [], Signature := []\<rparr>) =
      JObject ([(''v'', JUint (Version (Meta c))), (''t'', JString ts)] @
               (if PrevCS (Meta c) = [] then [] else [(''prev_cs'', JString (PrevCS (Meta c)))]) @
               [(''cs'', JString [])])"
    by (simp add: normalize_Meta_def ts_def)
  have "json_unmarshal E (Content ?tmp) = Inr parsed" using assms by simp
  from canonicalJSON_parsed[OF this]
  have a: "canonicalJSON E ?tmp = Inr canonical" by (simp add: m canonical_def)
  have b: "computeChecksum E c = Inr (hex_encode (sha256 E (canonical @ ts)))"
    using computeChecksum_parsed[OF assms(3)] by (simp add: m canonical_def ts_def)
  have "Validate E c = Inr () \<longleftrightarrow> CS (Meta c) = hex_encode (sha256 E (canonical @ ts))"
    by (auto simp: Validate_def b)
  with a b show ?thesis by blast
qed

theorem checksum_rule_witness:
  "computeChecksum example_env
     \<lparr>Meta = \<lparr>Version = 1, Time = 0, PrevCS = [], CS = ''xx'', Signature = ''sig''\<rparr>,
      Content = ''null''\<rparr> = Inr ''76'' \<and>
   Validate example_env
     \<lparr>Meta = \<lparr>Version = 1, Time = 0, PrevCS = [], CS = ''76'', Signature = ''sig''\<rparr>,
      Content = ''null''\<rparr> = Inr ()"
proof -
  let ?c = "\<lparr>Meta = \<lparr>Version = 1, Time = 0, PrevCS = [], CS = ''xx'', Signature = ''sig''\<rparr>,
      Content = ''null''\<rparr>"
  let ?d = "\<lparr>Meta = \<lparr>Version = 1, Time = 0, PrevCS = [], CS = ''76'', Signature = ''sig''\<rparr>,
      Content = ''null''\<rparr>"
  have pc: "json_unmarshal example_env (Content ?c) = Inr JNull" by (simp add: example_env_def)
  have pd: "json_unmarshal example_env (Content ?d) = Inr JNull" by (simp add: example_env_def)
  have hx: "hex_encode ''v'' = ''76''" by (simp add: hex_encode_def hex_digit_def)
  from checksum_rule[OF pc] checksum_rule[OF pd] hx show ?thesis
    by (simp add: example_env_def)
qed

text \<open>
  The number \<open>1e400\<close> is JSON, and \<open>json.Unmarshal\<close> into an \<open>interface{}\<close> refuses it, since it
  does not fit a \<open>float64\<close>: no checksum is computed for such a content, and \<open>Validate\<close> fails
  whatever \<open>Meta.CS\<close> is.
\<close>

theorem checksum_float_range_counterexample:
  "computeChecksum example_env
     \<lparr>Meta = \<lparr>Version = 1, Time = 0, PrevCS = [], CS = ''76'', Signature = []\<rparr>,
      Content = ''1e400''\<rparr> =
     Inl (JSONError ''cannot unmarshal number 1e400 into Go value of type float64'') \<and>
   Validate example_env
     \<lparr>Meta = \<lparr>Version = 1, Time = 0, PrevCS = [], CS = ''76'', Signature = []\<rparr>,
      Content = ''1e400''\<rparr> =
     Inl (JSONError ''cannot unmarshal number 1e400 into Go value of type float64'')"
  by (simp add: Validate_def computeChecksum_def canonicalJSON_def normalize_Config_def
      example_env_def)

section \<open>UpdateMeta, Validate and NextOf\<close>

lemma computeChecksum_ignores_CS:
  "computeChecksum E (c\<lparr>Meta := (Meta c)\<lparr>CS := cs\<rparr>\<rparr>) = computeChecksum E c"
  by (simp add: computeChecksum_def)



lemma UpdateMeta_result:
  assumes "json_unmarshal E (Content c0) = Inr parsed"
  shows "\<exists>cs. UpdateMeta E now c0 =
           Inr (c0\<lparr>Meta := \<lparr>Version = Version (Meta c0) + 1, Time = truncate_microsecond now,
                               PrevCS = CS (Meta c0), CS = cs, Signature = []\<rparr>\<rparr>) \<and>
         computeChecksum E (c0\<lparr>Meta := \<lparr>Version = Version (Meta c0) + 1,
                               Time = truncate_microsecond now,
                               PrevCS = CS (Meta c0), CS = cs, Signature = []\<rparr>\<rparr>) = Inr cs"
proof -
  let ?c' = "c0\<lparr>Meta := (Meta c0)\<lparr>Time := truncate_microsecond now,
                                   Version := Version (Meta c0) + 1,
                                   PrevCS := CS (Meta c0), CS := [], Signature := []\<rparr>\<rparr>"
  have "json_unmarshal E (Content ?c') = Inr parsed" using assms by simp
  from computeChecksum_parsed[OF this] obtain cs where cs: "computeChecksum E ?c' = Inr cs"
    by blast
  have eq: "?c'\<lparr>Meta := (Meta ?c')\<lparr>CS := cs\<rparr>\<rparr> =
        c0\<lparr>Meta := \<lparr>Version = Version (Meta c0) + 1, Time = truncate_microsecond now,
                               PrevCS = CS (Meta c0), CS = cs, Signature = []\<rparr>\<rparr>"
    by simp
  have "UpdateMeta E now c0 = Inr (?c'\<lparr>Meta := (Meta ?c')\<lparr>CS := cs\<rparr>\<rparr>)"
    by (simp add: UpdateMeta_def Let_def cs)
  moreover have "computeChecksum E (?c'\<lparr>Meta := (Meta ?c')\<lparr>CS := cs\<rparr>\<rparr>) = Inr cs"
    by (simp only: computeChecksum_ignores_CS cs)
  ultimately show ?thesis unfolding eq by blast
qed

text \<open>
  C3, as the code has it. \<open>UpdateMeta\<close> on a Config with JSON-parsable content returns a Config
  that satisfies \<open>Validate\<close>, with the version one higher and \<open>prev_cs\<close> the old \<open>cs\<close>. When the
  Config started from the Meta of a valid predecessor (as \<open>Update\<close> builds it; a signature on
  the predecessor does not matter) and the wall clock read by \<open>UpdateMeta\<close> is not earlier than
  the predecessor's time, \<open>NextOf\<close> succeeds and the time does not go back. Nothing in the
  code keeps the wall clock from stepping back between two calls.
\<close>

theorem UpdateMeta_chain:
  assumes "json_unmarshal E (Content c0) = Inr parsed"
  shows "\<exists>c. UpdateMeta E now c0 = Inr c \<and> Validate E c = Inr () \<and>
             PrevCS (Meta c) = CS (Meta c0) \<and> Version (Meta c) = Version (Meta c0) + 1 \<and>
             Time (Meta c) = truncate_microsecond now \<and>
             (\<forall>prev. Meta prev = Meta c0 \<and> Validate E prev = Inr () \<and>
                     Time (Meta prev) \<le> truncate_microsecond now
                \<longrightarrow> NextOf E c (Some prev) = Inr () \<and> PrevCS (Meta c) = CS (Meta prev) \<and>
                    Version (Meta c) = Version (Meta prev) + 1 \<and>
                    Time (Meta prev) \<le> Time (Meta c))"
proof -
  from UpdateMeta_result[OF assms, of now] obtain cs where
    u: "UpdateMeta E now c0 =
           Inr (c0\<lparr>Meta := \<lparr>Version = Version (Meta c0) + 1, Time = truncate_microsecond now,
                               PrevCS = CS (Meta c0), CS = cs, Signature = []\<rparr>\<rparr>)"
    and k: "computeChecksum E (c0\<lparr>Meta := \<lparr>Version = Version (Meta c0) + 1,
                               Time = truncate_microsecond now,
                               PrevCS = CS (Meta c0), CS = cs, Signature = []\<rparr>\<rparr>) = Inr cs"
    by blast
  let ?c = "c0\<lparr>Meta := \<lparr>Version = Version (Meta c0) + 1, Time = truncate_microsecond now,
                               PrevCS = CS (Meta c0), CS = cs, Signature = []\<rparr>\<rparr>"
  have v: "Validate E ?c = Inr ()" by (simp add: Validate_def k)
  have n: "NextOf E ?c (Some prev) = Inr ()"
    if "Meta prev = Meta c0" "Validate E prev = Inr ()" "Time (Meta prev) \<le> truncate_microsecond now"
    for prev
    using that v by (simp add: NextOf_def)
  have "\<forall>prev. Meta prev = Meta c0 \<and> Validate E prev = Inr () \<and>
                     Time (Meta prev) \<le> truncate_microsecond now
                \<longrightarrow> NextOf E ?c (Some prev) = Inr () \<and> PrevCS (Meta ?c) = CS (Meta prev) \<and>
                    Version (Meta ?c) = Version (Meta prev) + 1 \<and>
                    Time (Meta prev) \<le> Time (Meta ?c)"
  proof (intro allI impI)
    fix prev
    assume a: "Meta prev = Meta c0 \<and> Validate E prev = Inr () \<and>
                     Time (Meta prev) \<le> truncate_microsecond now"
    then have m: "Meta prev = Meta c0" and vp: "Validate E prev = Inr ()"
      and t: "Time (Meta prev) \<le> truncate_microsecond now" by blast+
    have 1: "NextOf E ?c (Some prev) = Inr ()" using m vp t by (rule n)
    have 2: "PrevCS (Meta ?c) = CS (Meta prev)" by (simp add: m)
    have 3: "Version (Meta ?c) = Version (Meta prev) + 1" by (simp add: m)
    have 4: "Time (Meta prev) \<le> Time (Meta ?c)" using t by simp
    show "NextOf E ?c (Some prev) = Inr () \<and> PrevCS (Meta ?c) = CS (Meta prev) \<and>
                    Version (Meta ?c) = Version (Meta prev) + 1 \<and>
                    Time (Meta prev) \<le> Time (Meta ?c)" by (intro conjI 1 2 3 4)
  qed
  with u v show ?thesis by (intro exI[of _ ?c]) simp
qed

theorem UpdateMeta_chain_witness:
  "UpdateMeta example_env 2000
     \<lparr>Meta = \<lparr>Version = 1, Time = 1000, PrevCS = [], CS = ''76'', Signature = []\<rparr>,
      Content = ''null''\<rparr> =
     Inr \<lparr>Meta = \<lparr>Version = 2, Time = 2000, PrevCS = ''76'', CS = ''7676'', Signature = []\<rparr>,
          Content = ''null''\<rparr> \<and>
   NextOf example_env
     \<lparr>Meta = \<lparr>Version = 2, Time = 2000, PrevCS = ''76'', CS = ''7676'', Signature = []\<rparr>,
      Content = ''null''\<rparr>
     (Some \<lparr>Meta = \<lparr>Version = 1, Time = 1000, PrevCS = [], CS = ''76'', Signature = []\<rparr>,
            Content = ''null''\<rparr>) = Inr ()"
proof -
  let ?p = "\<lparr>Meta = \<lparr>Version = 1, Time = 1000, PrevCS = [], CS = ''76'', Signature = []\<rparr>,
      Content = ''null''\<rparr>"
  have parse: "json_unmarshal example_env (Content ?p) = Inr JNull" by (simp add: example_env_def)
  have hx: "hex_encode ''v'' = ''76''" "hex_encode ''vv'' = ''7676''"
    by (simp_all add: hex_encode_def hex_digit_def)
  have r2: "replicate 2 CHR ''v'' = ''vv''" by (simp add: numeral_2_eq_2)
  have vp: "Validate example_env ?p = Inr ()"
    by (simp add: Validate_def computeChecksum_def canonicalJSON_def normalize_Config_def
        normalize_Meta_def example_env_def hx)
  have up: "UpdateMeta example_env 2000 ?p =
     Inr \<lparr>Meta = \<lparr>Version = 2, Time = 2000, PrevCS = ''76'', CS = ''7676'', Signature = []\<rparr>,
          Content = ''null''\<rparr>"
    by (simp add: UpdateMeta_def computeChecksum_def canonicalJSON_def normalize_Config_def
        normalize_Meta_def example_env_def truncate_microsecond_def hx r2)
  have clock: "Time (Meta ?p) \<le> truncate_microsecond 2000" by (simp add: truncate_microsecond_def)
  from UpdateMeta_chain[OF parse, of 2000] up vp clock show ?thesis by auto
qed

theorem UpdateMeta_clock_counterexample:
  "UpdateMeta example_env 2000
     \<lparr>Meta = \<lparr>Version = 0, Time = 0, PrevCS = [], CS = [], Signature = []\<rparr>, Content = ''null''\<rparr> =
     Inr \<lparr>Meta = \<lparr>Version = 1, Time = 2000, PrevCS = [], CS = ''76'', Signature = []\<rparr>,
          Content = ''null''\<rparr> \<and>
   UpdateMeta example_env 1000
     \<lparr>Meta = \<lparr>Version = 1, Time = 2000, PrevCS = [], CS = ''76'', Signature = []\<rparr>,
      Content = ''null''\<rparr> =
     Inr \<lparr>Meta = \<lparr>Version = 2, Time = 1000, PrevCS = ''76'', CS = ''7676'', Signature = []\<rparr>,
          Content = ''null''\<rparr> \<and>
   NextOf example_env
     \<lparr>Meta = \<lparr>Version = 2, Time = 1000, PrevCS = ''76'', CS = ''7676'', Signature = []\<rparr>,
      Content = ''null''\<rparr>
     (Some \<lparr>Meta = \<lparr>Version = 1, Time = 2000, PrevCS = [], CS = ''76'', Signature = []\<rparr>,
            Content = ''null''\<rparr>) = Inl (TimestampRegression 1000 2000)"
proof -
  have hx: "hex_encode ''v'' = ''76''" "hex_encode ''vv'' = ''7676''"
    by (simp_all add: hex_encode_def hex_digit_def)
  have r2: "replicate 2 CHR ''v'' = ''vv''" by (simp add: numeral_2_eq_2)
  show ?thesis
    by (simp add: UpdateMeta_def NextOf_def computeChecksum_def canonicalJSON_def
        normalize_Config_def normalize_Meta_def example_env_def truncate_microsecond_def hx r2)
qed

section \<open>ReadAll\<close>

lemma read_entries_short:
  assumes "\<forall>raw \<in> set raws. length raw < MaxScanTokenSize"
  shows "read_entries E raws entries =
     (case find (corrupt_line E) (map dropCR raws) of
        Some line \<Rightarrow> ([], Some (Wrap ''invalid journal entry'' (projl (unmarshal_entry E line))))
      | None \<Rightarrow>
          (entries @ map (\<lambda>line. projr (unmarshal_entry E line))
                         (filter (\<lambda>line. line \<noteq> []) (map dropCR raws)), None))"
  using assms
proof (induction raws arbitrary: entries)
  case Nil
  then show ?case by simp
next
  case (Cons raw raws)
  then have short: "\<not> MaxScanTokenSize \<le> length raw"
    and rest: "\<forall>raw \<in> set raws. length raw < MaxScanTokenSize" by simp_all
  show ?case
  proof (cases "dropCR raw = []")
    case True
    then show ?thesis using short by (simp add: corrupt_line_def Cons.IH[OF rest] cong: option.case_cong)
  next
    case False
    show ?thesis
    proof (cases "unmarshal_entry E (dropCR raw)")
      case (Inl err)
      then show ?thesis using short False by (simp add: corrupt_line_def)
    next
      case (Inr entry)
      then show ?thesis using short False
        by (simp add: corrupt_line_def Cons.IH[OF rest] cong: option.case_cong)
    qed
  qed
qed

text \<open>
  C9, as the code has it, for a journal whose lines are all shorter than the scanner's
  64 KiB buffer. If some non-empty line fails to parse, \<open>ReadAll\<close> returns no entries and the
  parse error of the first such line, wrapped as "invalid journal entry": the error is a
  function of the line's bytes and carries no line number. If every non-empty line parses,
  \<open>ReadAll\<close> returns their entries in file order, empty lines skipped, and no error.
\<close>

theorem ReadAll_lines:
  assumes "\<forall>raw \<in> set (scan_lines [] data). length raw < MaxScanTokenSize"
  shows "(\<forall>line. find (corrupt_line E) (journal_lines data) = Some line \<longrightarrow>
            ReadAll E (Inr data) =
              ([], Some (Wrap ''invalid journal entry'' (projl (unmarshal_entry E line))))) \<and>
         (find (corrupt_line E) (journal_lines data) = None \<longrightarrow>
            ReadAll E (Inr data) =
              (map (\<lambda>line. projr (unmarshal_entry E line))
                   (filter (\<lambda>line. line \<noteq> []) (journal_lines data)), None))"
  using read_entries_short[OF assms, of E "[]"]
  by (simp add: ReadAll_def journal_lines_def)

theorem ReadAll_lines_witness:
  "ReadAll example_env (Inr (''x'' @ [CHR 0x0A])) =
     ([], Some (Wrap ''invalid journal entry'' (JSONError ''invalid character''))) \<and>
   ReadAll example_env (Inr [CHR 0x0A, CHR 0x0D, CHR 0x0A]) = ([], None)"
proof -
  have s1: "\<forall>raw \<in> set (scan_lines [] (''x'' @ [CHR 0x0A])). length raw < MaxScanTokenSize"
    by (simp add: MaxScanTokenSize_def)
  have s2: "\<forall>raw \<in> set (scan_lines [] [CHR 0x0A, CHR 0x0D, CHR 0x0A]). length raw < MaxScanTokenSize"
    by (simp add: MaxScanTokenSize_def)
  have f1: "find (corrupt_line example_env) (journal_lines (''x'' @ [CHR 0x0A])) = Some ''x''"
    by (simp add: journal_lines_def dropCR_def corrupt_line_def example_env_def)
  have f2: "find (corrupt_line example_env) (journal_lines [CHR 0x0A, CHR 0x0D, CHR 0x0A]) = None"
    by (simp add: journal_lines_def dropCR_def corrupt_line_def example_env_def)
  have l2: "filter (\<lambda>line. line \<noteq> []) (journal_lines [CHR 0x0A, CHR 0x0D, CHR 0x0A]) = []"
    by (simp add: journal_lines_def dropCR_def)
  from ReadAll_lines[OF s1, of example_env] ReadAll_lines[OF s2, of example_env] f1 f2 l2
  show ?thesis by (simp add: example_env_def)
qed

text \<open>
  The same unparsable line as line 1 of one journal and as line 2 of another: \<open>ReadAll\<close>
  returns the same error for both, so the error does not tell the line.
\<close>

theorem ReadAll_no_line_number_counterexample:
  "ReadAll example_env (Inr (''x'' @ [CHR 0x0A])) =
     ([], Some (Wrap ''invalid journal entry'' (JSONError ''invalid character''))) \<and>
   ReadAll example_env (Inr ([CHR 0x0A] @ ''x'' @ [CHR 0x0A])) =
     ([], Some (Wrap ''invalid journal entry'' (JSONError ''invalid character'')))"
  by (simp add: ReadAll_def MaxScanTokenSize_def dropCR_def example_env_def)

section \<open>FileStorage and paths outside the root\<close>

lemma Join_escape: "Join [''/data'', ''../etc/passwd''] = ''/etc/passwd''"
  by (simp add: Join_def Clean_def HasPrefix_def clean_step_def)

lemma Join_sibling: "Join [''/data'', ''../data-evil/x''] = ''/data-evil/x''"
  by (simp add: Join_def Clean_def HasPrefix_def clean_step_def)

lemma Clean_escape: "Clean ''/etc/passwd'' = ''/etc/passwd''"
  by (simp add: Clean_def HasPrefix_def clean_step_def)

lemma Clean_sibling: "Clean ''/data-evil/x'' = ''/data-evil/x''"
  by (simp add: Clean_def HasPrefix_def clean_step_def)

text \<open>
  C8 at a path that escapes the root \<open>/data\<close>: \<open>Read\<close> refuses \<open>../etc/passwd\<close> with the
  invalid-path error, while \<open>Write\<close>, \<open>Exists\<close> and \<open>Delete\<close>, which have no such check, act on
  \<open>/etc/passwd\<close> and return no error; and \<open>Read\<close> itself accepts \<open>../data-evil/x\<close>, since
  \<open>/data-evil/x\<close> has the string prefix \<open>/data\<close>.
\<close>

theorem FileStorage_escapes_root:
  "Read (FileStorage ''/data'' [(''/etc/passwd'', ''secret'')]) ''../etc/passwd'' = Inl InvalidPath \<and>
   Write (FileStorage ''/data'' []) ''../etc/passwd'' ''x'' =
     Inr (FileStorage ''/data'' [(''/etc/passwd'', ''x'')]) \<and>
   Exists (FileStorage ''/data'' [(''/etc/passwd'', ''x'')]) ''../etc/passwd'' = Inr True \<and>
   Delete (FileStorage ''/data'' [(''/etc/passwd'', ''x'')]) ''../etc/passwd'' =
     Inr (FileStorage ''/data'' []) \<and>
   Read (FileStorage ''/data'' [(''/data-evil/x'', ''secret'')]) ''../data-evil/x'' = Inr ''secret''"
  by (simp add: Join_escape Join_sibling Clean_escape Clean_sibling HasPrefix_def
      put_file_def remove_file_def)

section \<open>Compact\<close>

lemma Resequence_subset:
  assumes "Resequence entries = Some (Inr r)"
  shows "set r \<subseteq> set entries"
proof (cases "entries = []")
  case True
  with assms show ?thesis by (simp add: Resequence_def)
next
  case ene: False
  obtain cm pm where idx: "build_index entries Map.empty (\<lambda>_. []) = (cm, pm)"
    by (cases "build_index entries Map.empty (\<lambda>_. [])")
  have pm: "pm k = filter (\<lambda>e. EntryCS e \<noteq> [] \<and> EntryPrevCS e = k) entries" for k
    using build_index_prev[of entries Map.empty "\<lambda>_. []" k] idx by simp
  from assms ene idx obtain h where fh: "find_head cm entries None = Inr (Some h)"
    and fc: "follow_chain pm h [] = Some (Inr r)"
    by (auto simp: Resequence_def split: sum.splits option.splits if_splits)
  from fh have heads: "filter (is_head cm) entries = [h]"
    by (auto simp: find_head_None split: list.splits)
  have "h \<in> set (filter (is_head cm) entries)" by (simp add: heads)
  then have hin: "h \<in> set entries" by simp
  from follow_chain_path[OF fc] have path: "r \<noteq> []" "hd r = h"
      "successively (\<lambda>a b. pm (EntryCS a) = [b]) r" by simp_all
  show ?thesis
    using path(3) path(1) by (rule path_in_entries) (auto simp: path(2) hin pm)
qed

lemma compact_one_subset:
  "Resequence idEntries = Some result \<Longrightarrow> set (compact_one idEntries result) \<subseteq> set idEntries"
proof (cases result)
  case (Inl err)
  then show ?thesis by (simp add: compact_one_def)
next
  case (Inr ordered)
  assume "Resequence idEntries = Some result"
  with Inr have "set ordered \<subseteq> set idEntries" by (intro Resequence_subset) simp
  moreover have "set (drop (length ordered - 10) ordered) \<subseteq> set ordered" by (rule set_drop_subset)
  ultimately show ?thesis using Inr by (auto simp: compact_one_def)
qed

lemma compact_ids_concat:
  assumes "\<forall>cid \<in> set ids. Resequence (filter (\<lambda>e. ID e = cid) entries) \<noteq> None"
  shows "compact_ids ids entries =
     Some (concat (map (\<lambda>cid. compact_one (filter (\<lambda>e. ID e = cid) entries)
                                  (the (Resequence (filter (\<lambda>e. ID e = cid) entries)))) ids))"
  using assms by (induction ids) auto

lemma filter_concat_groups:
  assumes "distinct ids" and "\<And>c. c \<in> set ids \<Longrightarrow> \<forall>e \<in> set (f c). ID e = c"
  shows "filter (\<lambda>e. ID e = cid) (concat (map f ids)) = (if cid \<in> set ids then f cid else [])"
  using assms
proof (induction ids)
  case Nil
  then show ?case by simp
next
  case (Cons a ids)
  have fa: "filter (\<lambda>e. ID e = cid) (f a) = (if cid = a then f a else [])"
    using Cons.prems(2)[of a] by (auto simp: filter_empty_conv filter_id_conv)
  have rest: "filter (\<lambda>e. ID e = cid) (concat (map f ids)) = (if cid \<in> set ids then f cid else [])"
    using Cons by simp
  show ?case using fa rest Cons.prems(1) by auto
qed

lemma marshal_lines_ok:
  "\<forall>e \<in> set es. \<not> isl (marshal_entry E e) \<Longrightarrow> \<exists>buf. marshal_lines E es = Inr buf"
proof (induction es)
  case Nil
  then show ?case by simp
next
  case (Cons e es)
  then obtain buf where "marshal_lines E es = Inr buf" by auto
  moreover from Cons.prems obtain d where "marshal_entry E e = Inr d"
    by (cases "marshal_entry E e") auto
  ultimately show ?case by simp
qed

lemma Compact_keeps:
  assumes rd: "Read st path = Inr data"
    and parsed: "read_entries E (scan_lines [] data) [] = (entries, None)"
    and ids: "distinct ids" "set ids = ID ` set entries"
    and returns: "\<forall>cid \<in> set ids. Resequence (filter (\<lambda>e. ID e = cid) entries) \<noteq> None"
    and marshals: "\<forall>e \<in> set entries. \<not> isl (marshal_entry E e)"
  shows "\<exists>compacted buf.
           Compact E ids st path = Some (Write st path buf) \<and>
           marshal_lines E compacted = Inr buf \<and>
           (\<forall>cid ordered. Resequence (filter (\<lambda>e. ID e = cid) entries) = Some (Inr ordered) \<longrightarrow>
              filter (\<lambda>e. ID e = cid) compacted =
                (if length ordered > 10 then drop (length ordered - 10) ordered else ordered)) \<and>
           (\<forall>cid err. Resequence (filter (\<lambda>e. ID e = cid) entries) = Some (Inl err) \<longrightarrow>
              filter (\<lambda>e. ID e = cid) compacted = filter (\<lambda>e. ID e = cid) entries)"
proof -
  let ?group = "\<lambda>cid. filter (\<lambda>e. ID e = cid) entries"
  let ?f = "\<lambda>cid. compact_one (?group cid) (the (Resequence (?group cid)))"
  let ?compacted = "concat (map ?f ids)"
  have ci: "compact_ids ids entries = Some ?compacted" using returns by (rule compact_ids_concat)
  have sub: "set (?f c) \<subseteq> set (?group c)" if "c \<in> set ids" for c
  proof -
    from returns that obtain result where r: "Resequence (?group c) = Some result" by auto
    from compact_one_subset[OF r] r show ?thesis by simp
  qed
  then have own: "\<forall>e \<in> set (?f c). ID e = c" if "c \<in> set ids" for c using that by auto
  have flt: "filter (\<lambda>e. ID e = cid) ?compacted = (if cid \<in> set ids then ?f cid else [])" for cid
    using ids(1) own by (rule filter_concat_groups)
  have "set ?compacted \<subseteq> set entries" using sub by auto
  then have "\<forall>e \<in> set ?compacted. \<not> isl (marshal_entry E e)" using marshals by blast
  from marshal_lines_ok[OF this] obtain buf where buf: "marshal_lines E ?compacted = Inr buf" by blast
  have c: "Compact E ids st path = Some (Write st path buf)"
    by (simp add: Compact_def rd parsed ci buf)
  have ok: "filter (\<lambda>e. ID e = cid) ?compacted =
      (if length ordered > 10 then drop (length ordered - 10) ordered else ordered)"
    if r: "Resequence (?group cid) = Some (Inr ordered)" for cid ordered
  proof (cases "cid \<in> set ids")
    case True
    then have "filter (\<lambda>e. ID e = cid) ?compacted = ?f cid" by (simp only: flt if_True)
    also have "?f cid = compact_one (?group cid) (Inr ordered)" by (simp only: r option.sel)
    finally show ?thesis by (simp add: compact_one_def)
  next
    case False
    then have "?group cid = []" using ids(2) by (auto simp: filter_empty_conv)
    with r have "ordered = []" by (simp add: Resequence_def)
    with False show ?thesis by (simp only: flt) simp
  qed
  have bad: "filter (\<lambda>e. ID e = cid) ?compacted = ?group cid"
    if r: "Resequence (?group cid) = Some (Inl err)" for cid err
  proof (cases "cid \<in> set ids")
    case True
    then have "filter (\<lambda>e. ID e = cid) ?compacted = ?f cid" by (simp only: flt if_True)
    also have "?f cid = compact_one (?group cid) (Inl err)" by (simp only: r option.sel)
    finally show ?thesis by (simp add: compact_one_def)
  next
    case False
    then have "?group cid = []" using ids(2) by (auto simp: filter_empty_conv)
    with False show ?thesis by (simp only: flt) simp
  qed
  from c buf ok bad show ?thesis by blast
qed

lemma Compact_parse_error:
  assumes rd: "Read st path = Inr data"
    and short: "\<forall>raw \<in> set (scan_lines [] data). length raw < MaxScanTokenSize"
    and bad: "find (corrupt_line E) (journal_lines data) = Some line"
  shows "Compact E ids st path =
           Some (Inl (Wrap ''invalid journal entry'' (projl (unmarshal_entry E line))))"
  using read_entries_short[OF short, of E "[]"] bad
  by (simp add: Compact_def rd journal_lines_def)

text \<open>
  C7, as the code has it, for a journal file that reads, with every line shorter than the
  scanner's 64 KiB buffer. When every non-empty line parses, \<open>json.Marshal\<close> accepts every
  entry and the resequence of every id returns, then, whatever the order in which the ids are
  visited, \<open>Compact\<close> writes one file, the lines of a list that holds, of each id, exactly the
  last ten entries of its resequenced chain (all of them when there are at most ten), and all
  of the id's entries, as they were, when its resequence fails. When some non-empty line does
  not parse, \<open>Compact\<close> returns the parse error of the first such line, wrapped, and no storage
  is written.
\<close>

theorem Compact_retention:
  assumes rd: "Read st path = Inr data"
    and short: "\<forall>raw \<in> set (scan_lines [] data). length raw < MaxScanTokenSize"
  shows "(\<forall>entries.
            find (corrupt_line E) (journal_lines data) = None \<and>
            entries = map (\<lambda>line. projr (unmarshal_entry E line))
                          (filter (\<lambda>line. line \<noteq> []) (journal_lines data)) \<and>
            distinct ids \<and> set ids = ID ` set entries \<and>
            (\<forall>cid \<in> set ids. Resequence (filter (\<lambda>e. ID e = cid) entries) \<noteq> None) \<and>
            (\<forall>e \<in> set entries. \<not> isl (marshal_entry E e))
          \<longrightarrow>
            (\<exists>compacted buf.
               Compact E ids st path = Some (Write st path buf) \<and>
               marshal_lines E compacted = Inr buf \<and>
               (\<forall>cid ordered.
                  Resequence (filter (\<lambda>e. ID e = cid) entries) = Some (Inr ordered) \<longrightarrow>
                  filter (\<lambda>e. ID e = cid) compacted =
                    (if length ordered > 10 then drop (length ordered - 10) ordered else ordered)) \<and>
               (\<forall>cid err.
                  Resequence (filter (\<lambda>e. ID e = cid) entries) = Some (Inl err) \<longrightarrow>
                  filter (\<lambda>e. ID e = cid) compacted = filter (\<lambda>e. ID e = cid) entries))) \<and>
         (\<forall>line.
            find (corrupt_line E) (journal_lines data) = Some line \<longrightarrow>
            Compact E ids st path =
              Some (Inl (Wrap ''invalid journal entry'' (projl (unmarshal_entry E line)))))"
proof (intro conjI allI impI)
  fix entries
  assume a: "find (corrupt_line E) (journal_lines data) = None \<and>
            entries = map (\<lambda>line. projr (unmarshal_entry E line))
                          (filter (\<lambda>line. line \<noteq> []) (journal_lines data)) \<and>
            distinct ids \<and> set ids = ID ` set entries \<and>
            (\<forall>cid \<in> set ids. Resequence (filter (\<lambda>e. ID e = cid) entries) \<noteq> None) \<and>
            (\<forall>e \<in> set entries. \<not> isl (marshal_entry E e))"
  then have parsed: "read_entries E (scan_lines [] data) [] = (entries, None)"
    using read_entries_short[OF short, of E "[]"] by (simp add: journal_lines_def)
  from a have ids: "distinct ids" "set ids = ID ` set entries"
    and returns: "\<forall>cid \<in> set ids. Resequence (filter (\<lambda>e. ID e = cid) entries) \<noteq> None"
    and marshals: "\<forall>e \<in> set entries. \<not> isl (marshal_entry E e)" by blast+
  show "\<exists>compacted buf.
               Compact E ids st path = Some (Write st path buf) \<and>
               marshal_lines E compacted = Inr buf \<and>
               (\<forall>cid ordered.
                  Resequence (filter (\<lambda>e. ID e = cid) entries) = Some (Inr ordered) \<longrightarrow>
                  filter (\<lambda>e. ID e = cid) compacted =
                    (if length ordered > 10 then drop (length ordered - 10) ordered else ordered)) \<and>
               (\<forall>cid err.
                  Resequence (filter (\<lambda>e. ID e = cid) entries) = Some (Inl err) \<longrightarrow>
                  filter (\<lambda>e. ID e = cid) compacted = filter (\<lambda>e. ID e = cid) entries)"
    using rd parsed ids returns marshals by (rule Compact_keeps)
next
  fix line
  assume "find (corrupt_line E) (journal_lines data) = Some line"
  with rd short show "Compact E ids st path =
              Some (Inl (Wrap ''invalid journal entry'' (projl (unmarshal_entry E line))))"
    by (rule Compact_parse_error)
qed

text \<open>
  The journal of the entries 2 and 1 of a chain is rewritten with both, in chain order; and
  a journal whose second line does not parse is not rewritten.
\<close>

theorem Compact_retention_witness:
  "(\<exists>compacted buf.
     Compact journal_example_env [''test'']
       (MemoryStorage [(''journal.jsonl'', ''2'' @ [CHR 0x0A] @ ''1'' @ [CHR 0x0A])]) ''journal.jsonl'' =
       Some (Write (MemoryStorage [(''journal.jsonl'', ''2'' @ [CHR 0x0A] @ ''1'' @ [CHR 0x0A])])
               ''journal.jsonl'' buf) \<and>
     marshal_lines journal_example_env compacted = Inr buf \<and>
     filter (\<lambda>e. ID e = ''test'') compacted =
       [test_entry 1 ''cs1'' [], test_entry 2 ''cs2'' ''cs1'']) \<and>
   Compact journal_example_env [''test'']
     (MemoryStorage [(''journal.jsonl'', ''1'' @ [CHR 0x0A] @ ''x'' @ [CHR 0x0A])]) ''journal.jsonl'' =
     Some (Inl (Wrap ''invalid journal entry'' (JSONError ''invalid character'')))"
proof -
  let ?E = journal_example_env
  let ?data = "''2'' @ [CHR 0x0A] @ ''1'' @ [CHR 0x0A]"
  let ?st = "MemoryStorage [(''journal.jsonl'', ?data)]"
  let ?entries = "[test_entry 2 ''cs2'' ''cs1'', test_entry 1 ''cs1'' []]"
  have rd: "Read ?st ''journal.jsonl'' = Inr ?data" by simp
  have short: "\<forall>raw \<in> set (scan_lines [] ?data). length raw < MaxScanTokenSize"
    by (simp add: MaxScanTokenSize_def)
  have lines: "journal_lines ?data = [''2'', ''1'']" by (simp add: journal_lines_def dropCR_def)
  have clean: "find (corrupt_line ?E) (journal_lines ?data) = None"
    using lines by (simp add: corrupt_line_def journal_example_env_def example_env_def)
  have entries: "?entries = map (\<lambda>line. projr (unmarshal_entry ?E line))
                          (filter (\<lambda>line. line \<noteq> []) (journal_lines ?data))"
    using lines by (simp add: journal_example_env_def example_env_def)
  have ids: "distinct [''test'']" "set [''test''] = ID ` set ?entries"
    by (simp_all add: test_entry_def)
  have grp: "filter (\<lambda>e. ID e = ''test'') ?entries = ?entries" by (simp add: test_entry_def)
  have rs: "Resequence ?entries = Some (Inr [test_entry 1 ''cs1'' [], test_entry 2 ''cs2'' ''cs1''])"
    by (simp add: Resequence_def test_entry_def follow_chain.simps)
  have returns: "\<forall>cid \<in> set [''test'']. Resequence (filter (\<lambda>e. ID e = cid) ?entries) \<noteq> None"
    by (simp add: grp rs del: filter.simps)
  have marshals: "\<forall>e \<in> set ?entries. \<not> isl (marshal_entry ?E e)"
    by (simp add: journal_example_env_def example_env_def test_entry_def)
  from Compact_retention[OF rd short, of ?E "[''test'']", THEN conjunct1, rule_format, of ?entries]
    clean entries ids returns marshals
  obtain compacted buf where c: "Compact ?E [''test''] ?st ''journal.jsonl'' = Some (Write ?st ''journal.jsonl'' buf)"
    and m: "marshal_lines ?E compacted = Inr buf"
    and k: "\<forall>cid ordered. Resequence (filter (\<lambda>e. ID e = cid) ?entries) = Some (Inr ordered) \<longrightarrow>
              filter (\<lambda>e. ID e = cid) compacted =
                (if length ordered > 10 then drop (length ordered - 10) ordered else ordered)"
    by blast
  from k[rule_format, of "''test''" "[test_entry 1 ''cs1'' [], test_entry 2 ''cs2'' ''cs1'']"] grp rs
  have "filter (\<lambda>e. ID e = ''test'') compacted = [test_entry 1 ''cs1'' [], test_entry 2 ''cs2'' ''cs1'']"
    by (simp del: filter.simps)
  with c m have first: "\<exists>compacted buf.
     Compact ?E [''test''] ?st ''journal.jsonl'' = Some (Write ?st ''journal.jsonl'' buf) \<and>
     marshal_lines ?E compacted = Inr buf \<and>
     filter (\<lambda>e. ID e = ''test'') compacted =
       [test_entry 1 ''cs1'' [], test_entry 2 ''cs2'' ''cs1'']" by blast
  let ?bad = "''1'' @ [CHR 0x0A] @ ''x'' @ [CHR 0x0A]"
  let ?sb = "MemoryStorage [(''journal.jsonl'', ?bad)]"
  have rdb: "Read ?sb ''journal.jsonl'' = Inr ?bad" by simp
  have shortb: "\<forall>raw \<in> set (scan_lines [] ?bad). length raw < MaxScanTokenSize"
    by (simp add: MaxScanTokenSize_def)
  have linesb: "journal_lines ?bad = [''1'', ''x'']" by (simp add: journal_lines_def dropCR_def)
  have corrupt: "find (corrupt_line ?E) (journal_lines ?bad) = Some ''x''"
    using linesb by (simp add: corrupt_line_def journal_example_env_def example_env_def)
  have perr: "projl (unmarshal_entry ?E ''x'') = JSONError ''invalid character''"
    by (simp add: journal_example_env_def example_env_def)
  from Compact_retention[OF rdb shortb, of ?E "[''test'']", THEN conjunct2, rule_format, OF corrupt] perr
  have second: "Compact ?E [''test''] ?sb ''journal.jsonl'' =
     Some (Inl (Wrap ''invalid journal entry'' (JSONError ''invalid character'')))" by simp
  from first second show ?thesis by blast
qed

text \<open>
  A journal whose only line does not parse: \<open>Compact\<close> returns the parse error and writes
  nothing.
\<close>

theorem Compact_corrupt_counterexample:
  "Compact example_env [] (MemoryStorage [(''journal.jsonl'', ''x'' @ [CHR 0x0A])]) ''journal.jsonl'' =
     Some (Inl (Wrap ''invalid journal entry'' (JSONError ''invalid character'')))"
  by (simp add: Compact_def MaxScanTokenSize_def dropCR_def example_env_def)

section \<open>Reconstruct\<close>




lemma split_path_nonempty: "split_path cur p \<noteq> []"
  by (induction p arbitrary: cur) auto























text \<open>
  On the in-memory storage a missing journal file is reported as \<open>os.ErrNotExist\<close>, whose text
  is "file does not exist": \<open>ReadAll\<close> does not take it for an empty journal, and \<open>Reconstruct\<close>
  returns the error.
\<close>

lemma Reconstruct_memory_no_journal:
  "map_of d path = None \<Longrightarrow> Reconstruct E (MemoryStorage d) path cid st = Some (Inl ErrNotExist)"
  by (simp add: Reconstruct_def FindByID_def ReadAll_def HasPrefix_def)






end
